theory Spec2Isabelle
  imports Complex_Main "HOL-Library.Word" "HOL-Library.Log_Nat" "HOL-Library.Multiset"
begin

section \<open>Go's float64: IEEE 754 binary64 with round-to-nearest-even\<close>

text \<open>
  \<^verbatim>\<open>processFile\<close> computes its saving ratio in \<^verbatim>\<open>float64\<close>. A finite binary64 value
  is an integer multiple \<open>m * 2 ^ k / 2 ^ 1074\<close> of the smallest subnormal
  \<open>1 / 2 ^ 1074\<close>, with \<open>\<bar>m\<bar> < 2 ^ 53\<close>; it is represented here by its exact rational
  value. The sign of zero is not tracked: the only divisor in the program is a
  converted integer, whose zero is \<open>+0\<close>, and comparison treats both zeros alike.
\<close>

datatype float64 = Finite rat | PosInf | NegInf | NaN

text \<open>Rounding a rational to the nearest integer, ties to the even one.\<close>

definition rne :: "rat \<Rightarrow> int" where
  "rne x = (let f = \<lfloor>x\<rfloor>; d = x - of_int f in
            if d < 1 / 2 then f else if 1 / 2 < d then f + 1
            else if even f then f else f + 1)"

text \<open>
  With \<open>denorm_scale = 2 ^ 1074\<close>, the unit in the last place of the binade of \<open>x\<close> is
  \<open>2 ^ ulp_shift x / denorm_scale\<close>: the significand keeps 53 bits, and below
  \<open>2 ^ 52 / denorm_scale\<close> (the subnormal range) the shift stays 0.
\<close>

definition denorm_scale :: rat where
  "denorm_scale = 2 ^ 1074"

definition ulp_shift :: "rat \<Rightarrow> nat" where
  "ulp_shift x = nat (bitlen \<lfloor>\<bar>x\<bar> * denorm_scale\<rfloor> - 53)"

definition rnd :: "rat \<Rightarrow> rat" where
  "rnd x = (let k = ulp_shift x
            in of_int (rne (x * denorm_scale / 2 ^ k)) * 2 ^ k / denorm_scale)"

text \<open>Rounding with overflow: a rounded magnitude of \<open>2 ^ 1024\<close> or more is an infinity.\<close>

definition round64 :: "rat \<Rightarrow> float64" where
  "round64 x = (let r = rnd x in
     if 2 ^ 1024 \<le> \<bar>r\<bar> then (if 0 < x then PosInf else NegInf) else Finite r)"

text \<open>The conversion \<^verbatim>\<open>float64(v)\<close> of an \<^verbatim>\<open>int64\<close>.\<close>

definition of_int64 :: "64 word \<Rightarrow> float64" where
  "of_int64 v = round64 (of_int (sint v))"

text \<open>Division, multiplication and \<^verbatim>\<open><\<close> on float64, with the IEEE special cases.\<close>

fun fdiv :: "float64 \<Rightarrow> float64 \<Rightarrow> float64" where
  "fdiv NaN b = NaN"
| "fdiv a NaN = NaN"
| "fdiv (Finite x) (Finite y) =
     (if y = 0 then (if x = 0 then NaN else if 0 < x then PosInf else NegInf)
      else round64 (x / y))"
| "fdiv (Finite x) b = Finite 0"
| "fdiv PosInf (Finite y) = (if 0 \<le> y then PosInf else NegInf)"
| "fdiv NegInf (Finite y) = (if 0 \<le> y then NegInf else PosInf)"
| "fdiv a b = NaN"

fun fmul :: "float64 \<Rightarrow> float64 \<Rightarrow> float64" where
  "fmul NaN b = NaN"
| "fmul a NaN = NaN"
| "fmul (Finite x) (Finite y) = round64 (x * y)"
| "fmul (Finite x) PosInf = (if x = 0 then NaN else if 0 < x then PosInf else NegInf)"
| "fmul (Finite x) NegInf = (if x = 0 then NaN else if 0 < x then NegInf else PosInf)"
| "fmul PosInf (Finite y) = (if y = 0 then NaN else if 0 < y then PosInf else NegInf)"
| "fmul NegInf (Finite y) = (if y = 0 then NaN else if 0 < y then NegInf else PosInf)"
| "fmul PosInf PosInf = PosInf"
| "fmul PosInf NegInf = NegInf"
| "fmul NegInf PosInf = NegInf"
| "fmul NegInf NegInf = PosInf"

fun flt :: "float64 \<Rightarrow> float64 \<Rightarrow> bool" where
  "flt NaN b = False"
| "flt a NaN = False"
| "flt (Finite x) (Finite y) = (x < y)"
| "flt (Finite x) PosInf = True"
| "flt (Finite x) NegInf = False"
| "flt PosInf b = False"
| "flt NegInf NegInf = False"
| "flt NegInf b = True"

section \<open>The decision step of processFile\<close>

datatype decision = Enable | Disable

text \<open>
  Lines 148-149 and 154 of \<^verbatim>\<open>ntfs_pancake.go\<close>:
  \<^verbatim>\<open>spaceSaved := originalSize - compressedSize\<close>,
  \<^verbatim>\<open>savingRatio := float64(spaceSaved) / float64(originalSize) * 100\<close> and the test
  \<^verbatim>\<open>savingRatio < COMPRESSION_EFFICIENCY_THRESHOLD\<close> with the threshold 10.
\<close>

definition savingRatio :: "64 word \<Rightarrow> 64 word \<Rightarrow> float64" where
  "savingRatio spaceSaved originalSize =
     fmul (fdiv (of_int64 spaceSaved) (of_int64 originalSize)) (Finite 100)"

definition COMPRESSION_EFFICIENCY_THRESHOLD :: float64 where
  "COMPRESSION_EFFICIENCY_THRESHOLD = Finite 10"

definition decide :: "64 word \<Rightarrow> 64 word \<Rightarrow> decision" where
  "decide originalSize compressedSize =
     (if flt (savingRatio (originalSize - compressedSize) originalSize)
             COMPRESSION_EFFICIENCY_THRESHOLD
      then Disable else Enable)"

section \<open>Errors, standard output and the environment of one path\<close>

text \<open>
  Go error values. \<open>EOF\<close> is \<^verbatim>\<open>io.EOF\<close>; \<open>SkipDir\<close> and \<open>SkipAll\<close> are the sentinels of
  \<^verbatim>\<open>path/filepath\<close>; every failure reported by the operating system is an \<open>OSError\<close>
  carrying its text.
\<close>

datatype error = EOF | SkipDir | SkipAll | OSError string

type_synonym byte = "8 word"

text \<open>One constructor for each \<^verbatim>\<open>fmt.Printf\<close> of the program, with its arguments.\<close>

datatype message =
    ErrorGettingFileSize string error
  | TooLargeSkipping string
  | ErrorCompressingInMemory string error
  | CompressionNotWorthIt string float64
  | ErrorDisabling string error
  | CompressionBeneficial string float64
  | ErrorEnabling string error
  | ErrorAccessingPath string error
  | ErrorScanningFolder string error
  | Usage string
  | Summary int int int "64 word"

text \<open>
  What the system calls made on one path answer: \<^verbatim>\<open>os.Stat\<close> (an error or
  \<^verbatim>\<open>fileInfo.Size()\<close>), \<^verbatim>\<open>os.Open\<close>, the successive results \<open>(buf[:n], err)\<close> of
  \<^verbatim>\<open>originalFile.Read(buf)\<close> (once the list is used up, \<^verbatim>\<open>Read\<close> returns \<open>(0, io.EOF)\<close>:
  the file is finite), \<^verbatim>\<open>syscall.CreateFile\<close> and
  \<^verbatim>\<open>windows.DeviceIoControl\<close> with \<^verbatim>\<open>FSCTL_SET_COMPRESSION\<close> and the given format.
\<close>

record file_env =
  path :: string
  stat_result :: "error + 64 word"
  open_result :: "error option"
  reads :: "(byte list \<times> error option) list"
  create_file_result :: "error option"
  device_io_control_result :: "16 word \<Rightarrow> error option"

section \<open>The compression controller: setCompression\<close>

definition COMPRESSION_FORMAT_DEFAULT :: "16 word" where
  "COMPRESSION_FORMAT_DEFAULT = 1"

definition COMPRESSION_FORMAT_NONE :: "16 word" where
  "COMPRESSION_FORMAT_NONE = 0"

definition setCompression :: "file_env \<Rightarrow> 16 word \<Rightarrow> error option" where
  "setCompression f compressionFormat =
     (case create_file_result f of
        Some err \<Rightarrow> Some err
      | None \<Rightarrow> device_io_control_result f compressionFormat)"

definition enableCompression :: "file_env \<Rightarrow> error option" where
  "enableCompression f = setCompression f COMPRESSION_FORMAT_DEFAULT"

definition disableCompression :: "file_env \<Rightarrow> error option" where
  "disableCompression f = setCompression f COMPRESSION_FORMAT_NONE"

section \<open>The estimator: compressFileInMemory\<close>

text \<open>
  \<^verbatim>\<open>compress/flate\<close> is a library, taken as a parameter: \<open>NewWriter\<close> is the result of
  \<^verbatim>\<open>flate.NewWriter(&compressedBuffer, flate.DefaultCompression)\<close>, a writer state
  \<open>'w\<close> holds the compressor together with its sink \<^verbatim>\<open>compressedBuffer\<close>, \<open>Write\<close> and
  \<open>Close\<close> are the writer's methods and \<open>Len\<close> is \<^verbatim>\<open>compressedBuffer.Len()\<close>.
\<close>

record 'w flate =
  NewWriter :: "error + 'w"
  Write :: "'w \<Rightarrow> byte list \<Rightarrow> error + 'w"
  Close :: "'w \<Rightarrow> error + 'w"
  Len :: "'w \<Rightarrow> nat"

text \<open>
  The \<^verbatim>\<open>for\<close> loop of lines 99-111. A read error other than \<^verbatim>\<open>io.EOF\<close> returns it, a read
  of no bytes ends the loop, and otherwise the bytes are counted and written.
\<close>

fun read_loop ::
  "'w flate \<Rightarrow> (byte list \<times> error option) list \<Rightarrow> 64 word \<Rightarrow> 'w \<Rightarrow> error + (64 word \<times> 'w)"
where
  "read_loop fl [] originalSize writer = Inr (originalSize, writer)"
| "read_loop fl ((bs, err) # rest) originalSize writer =
     (if err \<noteq> None \<and> err \<noteq> Some EOF then Inl (the err)
      else if length bs = 0 then Inr (originalSize, writer)
      else case Write fl writer bs of
             Inl e \<Rightarrow> Inl e
           | Inr writer' \<Rightarrow> read_loop fl rest (originalSize + of_nat (length bs)) writer')"

text \<open>
  The deferred \<^verbatim>\<open>originalFile.Close()\<close> and \<^verbatim>\<open>writer.Close()\<close> run after the results are
  fixed and act on values local to the call; they do not appear in the result.
\<close>

definition compressFileInMemory :: "'w flate \<Rightarrow> file_env \<Rightarrow> error + (64 word \<times> 64 word)" where
  "compressFileInMemory fl f =
     (case open_result f of
        Some err \<Rightarrow> Inl err
      | None \<Rightarrow>
          (case NewWriter fl of
             Inl err \<Rightarrow> Inl err
           | Inr writer \<Rightarrow>
               (case read_loop fl (reads f) 0 writer of
                  Inl err \<Rightarrow> Inl err
                | Inr (originalSize, writer') \<Rightarrow>
                    (case Close fl writer' of
                       Inl err \<Rightarrow> Inl err
                     | Inr writer'' \<Rightarrow> Inr (originalSize, of_nat (Len fl writer''))))))"

section \<open>The shared statistics and processFile\<close>

text \<open>
  The package-level variables of lines 26-32 and the lines printed so far. The three
  counters are Go \<^verbatim>\<open>int\<close>s that gain at most one per file processed, so they are
  unbounded integers here; \<^verbatim>\<open>totalSpaceSaved\<close> is an \<^verbatim>\<open>int64\<close> and keeps its width.
\<close>

record state =
  totalFilesProcessed :: int
  totalFilesCompressed :: int
  totalFilesDecompressed :: int
  totalSpaceSaved :: "64 word"
  stdout :: "message list"

definition initial :: state where
  "initial = \<lparr>totalFilesProcessed = 0, totalFilesCompressed = 0, totalFilesDecompressed = 0,
              totalSpaceSaved = 0, stdout = []\<rparr>"

definition Printf :: "message \<Rightarrow> state \<Rightarrow> state" where
  "Printf m st = st\<lparr>stdout := stdout st @ [m]\<rparr>"

text \<open>
  Lines 147-172: the part of \<^verbatim>\<open>processFile\<close> that follows a successful estimation, with
  the region between \<^verbatim>\<open>mu.Lock()\<close> and \<^verbatim>\<open>mu.Unlock()\<close>.
\<close>

definition recordDecision :: "state \<Rightarrow> file_env \<Rightarrow> 64 word \<Rightarrow> 64 word \<Rightarrow> state" where
  "recordDecision st f originalSize compressedSize =
     (let spaceSaved = originalSize - compressedSize;
          ratio = savingRatio spaceSaved originalSize;
          st1 = st\<lparr>totalFilesProcessed := totalFilesProcessed st + 1\<rparr>
      in if flt ratio COMPRESSION_EFFICIENCY_THRESHOLD then
           (let st2 = Printf (CompressionNotWorthIt (path f) ratio) st1
            in case disableCompression f of
                 Some err \<Rightarrow> Printf (ErrorDisabling (path f) err) st2
               | None \<Rightarrow> st2\<lparr>totalFilesDecompressed := totalFilesDecompressed st2 + 1\<rparr>)
         else
           (let st2 = Printf (CompressionBeneficial (path f) ratio) st1
            in case enableCompression f of
                 Some err \<Rightarrow> Printf (ErrorEnabling (path f) err) st2
               | None \<Rightarrow> st2\<lparr>totalFilesCompressed := totalFilesCompressed st2 + 1,
                              totalSpaceSaved := totalSpaceSaved st2 + spaceSaved\<rparr>))"

text \<open>
  Lines 124-145. A call is a path's environment together with the value of
  \<^verbatim>\<open>memStat.Frees\<close> (a \<^verbatim>\<open>uint64\<close>) that \<^verbatim>\<open>runtime.ReadMemStats\<close> gives this call;
  \<^verbatim>\<open>int64(memStat.Frees)\<close> reads the same 64 bits as a signed number.
\<close>

definition processFile :: "'w flate \<Rightarrow> state \<Rightarrow> file_env \<times> 64 word \<Rightarrow> state" where
  "processFile fl st call =
     (let f = fst call; Frees = snd call
      in case stat_result f of
           Inl err \<Rightarrow> Printf (ErrorGettingFileSize (path f) err) st
         | Inr originalSize \<Rightarrow>
             if sint Frees < sint originalSize then Printf (TooLargeSkipping (path f)) st
             else (case compressFileInMemory fl f of
                     Inl err \<Rightarrow> Printf (ErrorCompressingInMemory (path f) err) st
                   | Inr (originalSize, compressedSize) \<Rightarrow>
                       recordDecision st f originalSize compressedSize))"

text \<open>
  The workers (lines 183-188) call \<^verbatim>\<open>processFile\<close> on every path they receive. Before
  \<^verbatim>\<open>mu.Lock()\<close> a call reads its own path and prints; the shared counters change only
  under the lock. The final counters of a pool are therefore those of the calls
  taken one after the other in the order in which they enter the locked region,
  which is the list given to \<open>run\<close>; the interleaving of printed lines is not modelled.
\<close>

definition run :: "'w flate \<Rightarrow> state \<Rightarrow> (file_env \<times> 64 word) list \<Rightarrow> state" where
  "run fl st calls = foldl (processFile fl) st calls"

section \<open>The tree walk of scanAndCompressFolder\<close>

text \<open>
  The directory tree as \<^verbatim>\<open>filepath.Walk\<close> meets it. Every entry has a path (with the
  answers of the system calls on it); \<^verbatim>\<open>lstat\<close> fails on it (\<open>LstatError\<close>), or it is
  not a directory (\<open>File\<close>, with the value of \<^verbatim>\<open>info.Mode().IsRegular()\<close>), or it is a
  directory that cannot be listed (\<open>DirError\<close>), or a directory with its entries in
  the lexical order in which \<^verbatim>\<open>Walk\<close> visits them.
\<close>

datatype entry =
    LstatError file_env string
  | File file_env bool
  | DirError file_env string
  | Dir file_env "entry list"

fun env_of :: "entry \<Rightarrow> file_env" where
  "env_of (LstatError f msg) = f"
| "env_of (File f regular) = f"
| "env_of (DirError f msg) = f"
| "env_of (Dir f entries) = f"

fun IsDir :: "entry \<Rightarrow> bool" where
  "IsDir (DirError f msg) = True"
| "IsDir (Dir f entries) = True"
| "IsDir e = False"

fun IsRegular :: "entry \<Rightarrow> bool" where
  "IsRegular (File f regular) = regular"
| "IsRegular e = False"

text \<open>
  \<^verbatim>\<open>filepath.Walk\<close> and its helper \<^verbatim>\<open>walk\<close>, from the Go standard library, for any
  callback \<open>walkFn\<close> acting on a state \<open>'s\<close>. The callback is given the entry (its path
  and \<^verbatim>\<open>FileInfo\<close>) and the error met on it. \<^verbatim>\<open>walk\<close> is only called on entries whose
  \<^verbatim>\<open>lstat\<close> succeeded; its equation for \<open>LstatError\<close> makes it total.
\<close>

fun walk :: "('s \<Rightarrow> entry \<Rightarrow> error option \<Rightarrow> 's \<times> error option) \<Rightarrow> entry \<Rightarrow> 's \<Rightarrow> 's \<times> error option"
and walk_names :: "('s \<Rightarrow> entry \<Rightarrow> error option \<Rightarrow> 's \<times> error option) \<Rightarrow> entry list \<Rightarrow> 's \<Rightarrow> 's \<times> error option"
where
  "walk walkFn (File f regular) s = walkFn s (File f regular) None"
| "walk walkFn (DirError f msg) s = walkFn s (DirError f msg) (Some (OSError msg))"
| "walk walkFn (Dir f entries) s =
     (case walkFn s (Dir f entries) None of
        (s', Some err1) \<Rightarrow> (s', Some err1)
      | (s', None) \<Rightarrow> walk_names walkFn entries s')"
| "walk walkFn (LstatError f msg) s = walkFn s (LstatError f msg) (Some (OSError msg))"
| "walk_names walkFn [] s = (s, None)"
| "walk_names walkFn (e # es) s =
     (case e of
        LstatError f msg \<Rightarrow>
          (case walkFn s e (Some (OSError msg)) of
             (s', Some err) \<Rightarrow> if err \<noteq> SkipDir then (s', Some err) else walk_names walkFn es s'
           | (s', None) \<Rightarrow> walk_names walkFn es s')
      | _ \<Rightarrow>
          (case walk walkFn e s of
             (s', Some err) \<Rightarrow>
               if \<not> IsDir e \<or> err \<noteq> SkipDir then (s', Some err) else walk_names walkFn es s'
           | (s', None) \<Rightarrow> walk_names walkFn es s'))"

definition Walk :: "('s \<Rightarrow> entry \<Rightarrow> error option \<Rightarrow> 's \<times> error option) \<Rightarrow> entry \<Rightarrow> 's \<Rightarrow> 's \<times> error option" where
  "Walk fn rootDir s =
     (case (case rootDir of
              LstatError f msg \<Rightarrow> fn s rootDir (Some (OSError msg))
            | _ \<Rightarrow> walk fn rootDir s) of
        (s', Some err) \<Rightarrow> if err = SkipDir \<or> err = SkipAll then (s', None) else (s', Some err)
      | (s', None) \<Rightarrow> (s', None))"

text \<open>
  The walking goroutine of lines 201-220: what it has sent on the channel \<^verbatim>\<open>paths\<close>
  and what it has printed. \<open>walkFn\<close> is the function literal of lines 203-215.
\<close>

record walker =
  paths :: "file_env list"
  printed :: "message list"

definition walkFn :: "walker \<Rightarrow> entry \<Rightarrow> error option \<Rightarrow> walker \<times> error option" where
  "walkFn w info err =
     (case err of
        Some e \<Rightarrow> (w\<lparr>printed := printed w @ [ErrorAccessingPath (path (env_of info)) e]\<rparr>, Some e)
      | None \<Rightarrow>
          (if \<not> IsDir info \<and> IsRegular info then w\<lparr>paths := paths w @ [env_of info]\<rparr> else w,
           None))"

text \<open>
  What one execution leaves open: \<open>schedule\<close> gives the order in which the paths sent
  on the channel enter the locked region of \<^verbatim>\<open>processFile\<close> (a rearrangement of its
  argument; the \<^verbatim>\<open>WORKER_COUNT\<close> = 200 workers only limit which rearrangements can
  occur), and \<open>frees_at k\<close> is the \<^verbatim>\<open>memStat.Frees\<close> read by the \<open>k\<close>-th of these calls.
\<close>

record runtime =
  schedule :: "file_env list \<Rightarrow> file_env list"
  frees_at :: "nat \<Rightarrow> 64 word"

definition scanAndCompressFolder :: "'w flate \<Rightarrow> runtime \<Rightarrow> entry \<Rightarrow> state \<Rightarrow> state" where
  "scanAndCompressFolder fl rt rootDir st =
     (let (w, err) = Walk walkFn rootDir \<lparr>paths = [], printed = []\<rparr>;
          out = printed w @
                (case err of
                   Some e \<Rightarrow> [ErrorScanningFolder (path (env_of rootDir)) e]
                 | None \<Rightarrow> []);
          tasks = schedule rt (paths w);
          calls = zip tasks (map (frees_at rt) [0..<length tasks])
      in run fl (st\<lparr>stdout := stdout st @ out\<rparr>) calls)"

text \<open>
  \<^verbatim>\<open>main\<close>, with the tree found at each root path. The result is the final state and
  the exit code of the process: 0 when \<^verbatim>\<open>main\<close> returns, 2 when it panics, which only
  \<^verbatim>\<open>os.Args[0]\<close> on an empty \<^verbatim>\<open>os.Args\<close> can do.
\<close>

definition main :: "'w flate \<Rightarrow> runtime \<Rightarrow> (string \<Rightarrow> entry) \<Rightarrow> string list \<Rightarrow> state \<times> nat" where
  "main fl rt tree Args =
     (if length Args \<noteq> 2 then
        (case Args of
           [] \<Rightarrow> (initial, 2)
         | arg0 # rest \<Rightarrow> (Printf (Usage arg0) initial, 0))
      else
        (let folderPath = Args ! 1;
             st = scanAndCompressFolder fl rt (tree folderPath) initial
         in (Printf (Summary (totalFilesProcessed st) (totalFilesCompressed st)
                       (totalFilesDecompressed st) (totalSpaceSaved st)) st, 0)))"

section \<open>Notions used to state the properties\<close>

text \<open>
  A call passes the guard of lines 130-138 when \<^verbatim>\<open>getFileSize\<close> succeeds and the size
  does not exceed \<^verbatim>\<open>int64(memStat.Frees)\<close>; its \<open>sample\<close> is the pair of sizes that
  \<^verbatim>\<open>compressFileInMemory\<close> then returns, if it succeeds.
\<close>

definition passes_guard :: "file_env \<times> 64 word \<Rightarrow> bool" where
  "passes_guard call =
     (case stat_result (fst call) of
        Inl err \<Rightarrow> False
      | Inr originalSize \<Rightarrow> \<not> sint (snd call) < sint originalSize)"

definition estimation_failed :: "'w flate \<Rightarrow> file_env \<times> 64 word \<Rightarrow> bool" where
  "estimation_failed fl call =
     (passes_guard call \<and>
      (case compressFileInMemory fl (fst call) of Inl err \<Rightarrow> True | Inr sizes \<Rightarrow> False))"

definition sample :: "'w flate \<Rightarrow> file_env \<times> 64 word \<Rightarrow> (64 word \<times> 64 word) option" where
  "sample fl call =
     (if passes_guard call
      then (case compressFileInMemory fl (fst call) of
              Inl err \<Rightarrow> None
            | Inr sizes \<Rightarrow> Some sizes)
      else None)"

text \<open>The controller call that follows a decision, and the outcomes of a call.\<close>

fun apply_decision :: "decision \<Rightarrow> file_env \<Rightarrow> error option" where
  "apply_decision Enable f = enableCompression f"
| "apply_decision Disable f = disableCompression f"

definition apply_failed :: "'w flate \<Rightarrow> file_env \<times> 64 word \<Rightarrow> bool" where
  "apply_failed fl call =
     (case sample fl call of
        None \<Rightarrow> False
      | Some (originalSize, compressedSize) \<Rightarrow>
          apply_decision (decide originalSize compressedSize) (fst call) \<noteq> None)"

definition compressed :: "'w flate \<Rightarrow> file_env \<times> 64 word \<Rightarrow> bool" where
  "compressed fl call =
     (case sample fl call of
        None \<Rightarrow> False
      | Some (originalSize, compressedSize) \<Rightarrow>
          decide originalSize compressedSize = Enable \<and> enableCompression (fst call) = None)"

definition decompressed :: "'w flate \<Rightarrow> file_env \<times> 64 word \<Rightarrow> bool" where
  "decompressed fl call =
     (case sample fl call of
        None \<Rightarrow> False
      | Some (originalSize, compressedSize) \<Rightarrow>
          decide originalSize compressedSize = Disable \<and> disableCompression (fst call) = None)"

definition bytes_saved :: "'w flate \<Rightarrow> file_env \<times> 64 word \<Rightarrow> 64 word" where
  "bytes_saved fl call =
     (case sample fl call of
        None \<Rightarrow> 0
      | Some (originalSize, compressedSize) \<Rightarrow> originalSize - compressedSize)"

text \<open>Feeding a writer the chunks of a file one after the other.\<close>

fun feed :: "'w flate \<Rightarrow> 'w \<Rightarrow> byte list list \<Rightarrow> error + 'w" where
  "feed fl writer [] = Inr writer"
| "feed fl writer (bs # rest) =
     (case Write fl writer bs of
        Inl e \<Rightarrow> Inl e
      | Inr writer' \<Rightarrow> feed fl writer' rest)"

text \<open>
  The entries of a tree in the order of the walk, the error \<^verbatim>\<open>Walk\<close> meets on an entry,
  and the walk read off that list: \<open>visit\<close> hands the entries to \<open>walkFn\<close> one by one
  and stops at the first error.
\<close>

fun preorder :: "entry \<Rightarrow> entry list" where
  "preorder (Dir f entries) = Dir f entries # concat (map preorder entries)"
| "preorder e = [e]"

fun walk_error :: "entry \<Rightarrow> error option" where
  "walk_error (LstatError f msg) = Some (OSError msg)"
| "walk_error (DirError f msg) = Some (OSError msg)"
| "walk_error e = None"

fun visit :: "entry list \<Rightarrow> walker \<Rightarrow> walker \<times> error option" where
  "visit [] w = (w, None)"
| "visit (e # es) w =
     (case walkFn w e (walk_error e) of
        (w', Some err) \<Rightarrow> (w', Some err)
      | (w', None) \<Rightarrow> visit es w')"

definition regular_files :: "entry list \<Rightarrow> file_env list" where
  "regular_files es = map env_of (filter (\<lambda>e. \<not> IsDir e \<and> IsRegular e) es)"

text \<open>
  The chunks that the loop of lines 98-111 passes to the compressor: the reads up to
  the first one that returns no bytes. A compressor works on the stream of bytes when
  a write of two chunks joined is a write of the first followed by a write of the
  second.
\<close>

definition chunks_read :: "(byte list \<times> error option) list \<Rightarrow> byte list list" where
  "chunks_read rs = map fst (takeWhile (\<lambda>r. fst r \<noteq> []) rs)"

definition splits_writes :: "'w flate \<Rightarrow> bool" where
  "splits_writes fl =
     (\<forall>w a b. a \<noteq> [] \<longrightarrow> b \<noteq> [] \<longrightarrow>
        Write fl w (a @ b) = (case Write fl w a of Inl e \<Rightarrow> Inl e | Inr w' \<Rightarrow> Write fl w' b))"

text \<open>A call without its reading: the file and whether the call passes the guard.\<close>

definition guard_key :: "file_env \<times> 64 word \<Rightarrow> file_env \<times> bool" where
  "guard_key call = (fst call, passes_guard call)"

section \<open>Concrete inputs\<close>

text \<open>
  A stand-in for the compressor in concrete runs: it drops adjacent repeated bytes
  and its \<open>Close\<close> adds nothing.
\<close>

definition dedup_flate :: "byte list flate" where
  "dedup_flate = \<lparr>NewWriter = Inr [], Write = (\<lambda>w bs. Inr (w @ remdups_adj bs)),
                  Close = (\<lambda>w. Inr w), Len = length\<rparr>"

text \<open>
  A second stand-in: it stores the bytes as they come, and its \<open>Close\<close> appends a
  five-byte end marker, so that the closed sink is never empty.
\<close>

definition stored_flate :: "byte list flate" where
  "stored_flate = \<lparr>NewWriter = Inr [], Write = (\<lambda>w bs. Inr (w @ bs)),
                   Close = (\<lambda>w. Inr (w @ [1, 0, 0, 255, 255])), Len = length\<rparr>"

text \<open>
  A readable file whose content, if any, arrives in one read and whose controller
  calls succeed.
\<close>

definition plain_file :: "string \<Rightarrow> byte list \<Rightarrow> file_env" where
  "plain_file p bs = \<lparr>path = p, stat_result = Inr (of_nat (length bs)), open_result = None,
                      reads = (if bs = [] then [] else [(bs, None)]),
                      create_file_result = None,
                      device_io_control_result = (\<lambda>format. None)\<rparr>"

definition repetitive :: file_env where
  "repetitive = plain_file ''a.log'' [7, 7, 7, 7, 7, 7, 7, 7, 7, 7]"

definition varied :: file_env where
  "varied = plain_file ''b.bin'' [1, 2, 3, 4, 5, 6, 7, 8, 9, 10]"

definition small :: file_env where
  "small = plain_file ''e.txt'' [1, 2, 3]"

definition unreadable :: file_env where
  "unreadable = (plain_file ''c.dat'' [1, 2, 3])\<lparr>open_result := Some (OSError ''access denied'')\<rparr>"

definition locked :: file_env where
  "locked = (plain_file ''d.log'' [7, 7, 7, 7, 7, 7, 7, 7, 7, 7])
              \<lparr>create_file_result := Some (OSError ''sharing violation'')\<rparr>"


definition one_read :: file_env where
  "one_read = (plain_file ''one.dat'' [7, 7, 8])\<lparr>reads := [([7, 7, 8], None), ([], Some EOF)]\<rparr>"

definition two_reads :: file_env where
  "two_reads = (plain_file ''two.dat'' [7, 7, 8])\<lparr>reads := [([7], None), ([7, 8], Some EOF)]\<rparr>"

definition in_order :: runtime where
  "in_order = \<lparr>schedule = (\<lambda>tasks. tasks), frees_at = (\<lambda>k. 1000)\<rparr>"

text \<open>
  A folder whose first entry is a directory that cannot be listed and whose second
  entry is a regular file.
\<close>

definition blocked_tree :: entry where
  "blocked_tree = Dir (plain_file ''data'' [])
     [DirError (plain_file ''data/a'' []) ''access denied'', File small True]"

section \<open>Properties of the rounding\<close>

text \<open>
  Rounding to nearest keeps the order with respect to integers, and \<open>rnd\<close> with
  respect to every representable value; a value within half a unit in the last place
  below a representable one rounds up to it.
\<close>

lemma rne_ge: "of_int n \<le> x \<Longrightarrow> n \<le> rne x"
proof -
  assume "of_int n \<le> x"
  then have "n \<le> \<lfloor>x\<rfloor>" by (simp add: le_floor_iff)
  then show ?thesis by (auto simp: rne_def Let_def)
qed

lemma rne_le: "x \<le> of_int n \<Longrightarrow> rne x \<le> n"
proof -
  assume h: "x \<le> of_int n"
  show ?thesis
  proof (cases "x = of_int n")
    case True then show ?thesis by (simp add: rne_def)
  next
    case False
    with h have "x < of_int n" by simp
    then have "\<lfloor>x\<rfloor> < n" by (simp add: floor_less_iff)
    then show ?thesis by (auto simp: rne_def Let_def)
  qed
qed

lemma rne_ge_half: "of_int n - 1 / 2 < x \<Longrightarrow> n \<le> rne x"
proof -
  assume h: "of_int n - 1 / 2 < x"
  then have "of_int (n - 1) \<le> x" by simp
  then have f: "n - 1 \<le> \<lfloor>x\<rfloor>" by (simp add: le_floor_iff)
  show ?thesis
  proof (cases "n \<le> \<lfloor>x\<rfloor>")
    case True then show ?thesis by (auto simp: rne_def Let_def)
  next
    case False
    with f have e: "\<lfloor>x\<rfloor> = n - 1" by simp
    with h have "1 / 2 < x - of_int \<lfloor>x\<rfloor>" by simp
    then show ?thesis using e by (auto simp: rne_def Let_def)
  qed
qed

lemma rne_of_int: "rne (of_int n) = n"
  by (simp add: rne_def)

lemma rne_uminus: "rne (- x) = - rne x"
proof (cases "x = of_int \<lfloor>x\<rfloor>")
  case True
  then obtain n where "x = of_int n" ..
  then show ?thesis using rne_of_int[of "-n"] rne_of_int[of n] by simp
next
  case False
  then have fl: "\<lfloor>- x\<rfloor> = - \<lfloor>x\<rfloor> - 1"
    by (metis ceiling_altdef ceiling_def add_diff_cancel_right' minus_diff_eq uminus_add_conv_diff neg_equal_iff_equal add.commute)
  show ?thesis
    unfolding rne_def Let_def fl by (auto simp: algebra_simps)
qed

lemma denorm_scale_pos: "0 < denorm_scale"
  by (simp add: denorm_scale_def)

lemma ulp_shift_upper: "\<bar>x\<bar> * denorm_scale < 2 ^ 53 * 2 ^ ulp_shift x"
proof -
  define y where "y = \<bar>x\<bar> * denorm_scale"
  define N where "N = \<lfloor>y\<rfloor>"
  have y0: "0 \<le> y" using denorm_scale_pos by (simp add: y_def)
  then have N0: "0 \<le> N" by (simp add: N_def)
  have yN: "y < of_int (N + 1)" unfolding N_def by linarith
  have K: "ulp_shift x = nat (bitlen N - 53)" by (simp add: ulp_shift_def N_def y_def)
  have "N + 1 \<le> 2 ^ nat (bitlen N)"
  proof (cases "N = 0")
    case True then show ?thesis by simp
  next
    case False
    with N0 have "0 < N" by simp
    from bitlen_bounds[OF this] show ?thesis by simp
  qed
  also have "\<dots> \<le> 2 ^ (53 + nat (bitlen N - 53))"
    by (rule power_increasing) auto
  finally have "N + 1 \<le> 2 ^ (53 + ulp_shift x)" by (simp add: K)
  then have "(of_int (N + 1) :: rat) \<le> of_int (2 ^ (53 + ulp_shift x))"
    by (simp only: of_int_le_iff)
  with yN have "y < 2 ^ (53 + ulp_shift x)" by simp
  then show ?thesis by (simp only: y_def power_add)
qed

lemma ulp_shift_lower:
  assumes "0 < ulp_shift x"
  shows "2 ^ 52 * 2 ^ ulp_shift x \<le> \<bar>x\<bar> * denorm_scale"
proof -
  define y where "y = \<bar>x\<bar> * denorm_scale"
  define N where "N = \<lfloor>y\<rfloor>"
  have K: "ulp_shift x = nat (bitlen N - 53)" by (simp add: ulp_shift_def N_def y_def)
  with assms have b: "53 < bitlen N" by simp
  then have "N > 0" using bitlen_eq_zero_iff[of N] by (cases "N > 0") auto
  from bitlen_bounds[OF this] have "2 ^ nat (bitlen N - 1) \<le> N" by simp
  moreover have "nat (bitlen N - 1) = 52 + ulp_shift x" using b K by simp
  ultimately have "2 ^ (52 + ulp_shift x) \<le> N" by simp
  then have "(of_int (2 ^ (52 + ulp_shift x)) :: rat) \<le> of_int N"
    by (simp only: of_int_le_iff)
  also have "\<dots> \<le> y" by (simp add: N_def)
  finally show ?thesis by (simp add: y_def power_add)
qed

lemma ulp_shift_uminus: "ulp_shift (- x) = ulp_shift x"
  by (simp add: ulp_shift_def)

lemma rnd_uminus: "rnd (- x) = - rnd x"
  by (simp add: rnd_def Let_def ulp_shift_uminus rne_uminus)


lemma rnd_unfold:
  "rnd x * denorm_scale = of_int (rne (x * denorm_scale / 2 ^ ulp_shift x)) * 2 ^ ulp_shift x"
  using denorm_scale_pos by (simp add: rnd_def Let_def)

lemma pow53: "m < 2 ^ 53 \<Longrightarrow> (of_int m :: rat) < 2 ^ 53"
  by (metis of_int_less_iff of_int_numeral of_int_power)

text \<open>Rounding never crosses a representable value.\<close>

lemma rnd_ge_scaled:
  assumes m: "0 \<le> m" "m < 2 ^ 53" and y: "of_int m * 2 ^ j \<le> x * denorm_scale"
  shows "of_int m * 2 ^ j \<le> rnd x * denorm_scale"
proof -
  define K where "K = ulp_shift x"
  define q where "q = x * denorm_scale / 2 ^ K"
  have "(0::rat) \<le> of_int m * 2 ^ j" using m by simp
  with y have "0 \<le> x * denorm_scale" by linarith
  then have x0: "0 \<le> x" using denorm_scale_pos by (simp add: zero_le_mult_iff)
  have R: "rnd x * denorm_scale = of_int (rne q) * 2 ^ K"
    unfolding q_def K_def by (rule rnd_unfold)
  have q: "q * 2 ^ K = x * denorm_scale" by (simp add: q_def)
  show ?thesis
  proof (cases "K \<le> j")
    case True
    then have e: "(2::rat) ^ j = 2 ^ (j - K) * 2 ^ K" by (simp flip: power_add)
    have "of_int m * 2 ^ (j - K) * 2 ^ K \<le> q * (2::rat) ^ K" using y e q by (simp add: mult.assoc)
    then have "of_int (m * 2 ^ (j - K)) \<le> q" by simp
    from rne_ge[OF this] have "(of_int (m * 2 ^ (j - K)) :: rat) \<le> of_int (rne q)"
      by (simp only: of_int_le_iff)
    then have "of_int (m * 2 ^ (j - K)) * 2 ^ K \<le> (of_int (rne q) :: rat) * 2 ^ K"
      by simp
    then show ?thesis unfolding R using e by (simp add: mult.assoc)
  next
    case False
    then have jK: "j + 1 \<le> K" and "0 < K" by simp_all
    from ulp_shift_lower[of x] \<open>0 < K\<close> x0 have "2 ^ 52 * 2 ^ K \<le> x * denorm_scale"
      unfolding K_def by simp
    then have "2 ^ 52 * 2 ^ K \<le> q * (2::rat) ^ K" by (simp only: q)
    then have "of_int (2 ^ 52) \<le> q" by simp
    from rne_ge[OF this] have "(of_int (2 ^ 52) :: rat) \<le> of_int (rne q)"
      by (simp only: of_int_le_iff)
    then have a: "(2::rat) ^ 52 * 2 ^ K \<le> of_int (rne q) * 2 ^ K"
      by simp
    have "of_int m * 2 ^ j \<le> (2 ^ 53 :: rat) * 2 ^ j" using pow53[OF m(2)] by simp
    also have "\<dots> = 2 ^ 52 * 2 ^ (j + 1)" by simp
    also have "\<dots> \<le> 2 ^ 52 * 2 ^ K" using jK by (simp add: power_increasing del: power_Suc)
    also note a
    finally show ?thesis unfolding R .
  qed
qed

lemma rnd_le_scaled:
  assumes m: "0 \<le> m" "m < 2 ^ 53" and y: "x * denorm_scale \<le> of_int m * 2 ^ j"
  shows "rnd x * denorm_scale \<le> of_int m * 2 ^ j"
proof -
  define K where "K = ulp_shift x"
  define q where "q = x * denorm_scale / 2 ^ K"
  have r0: "(0::rat) \<le> of_int m * 2 ^ j" using m by simp
  have R: "rnd x * denorm_scale = of_int (rne q) * 2 ^ K"
    unfolding q_def K_def by (rule rnd_unfold)
  have q: "q * 2 ^ K = x * denorm_scale" by (simp add: q_def)
  show ?thesis
  proof (cases "x \<le> 0")
    case True
    then have "q \<le> of_int 0" using denorm_scale_pos
      by (simp add: q_def divide_le_0_iff mult_le_0_iff)
    from rne_le[OF this] have "(of_int (rne q) :: rat) \<le> 0" by simp
    then have "rnd x * denorm_scale \<le> 0" unfolding R by (simp add: mult_le_0_iff)
    with r0 show ?thesis by simp
  next
    case False
    then have xp: "0 < x" by simp
    show ?thesis
    proof (cases "K \<le> j")
      case True
      then have e: "(2::rat) ^ j = 2 ^ (j - K) * 2 ^ K" by (simp flip: power_add)
      have "q * (2::rat) ^ K \<le> of_int m * 2 ^ (j - K) * 2 ^ K" using y e q by (simp add: mult.assoc)
      then have "q \<le> of_int (m * 2 ^ (j - K))" by simp
      from rne_le[OF this] have "(of_int (rne q) :: rat) \<le> of_int (m * 2 ^ (j - K))"
        by (simp only: of_int_le_iff)
      then have "(of_int (rne q) :: rat) * 2 ^ K \<le> of_int (m * 2 ^ (j - K)) * 2 ^ K"
        by simp
      then show ?thesis unfolding R using e by (simp add: mult.assoc)
    next
      case False
      then have jK: "j + 1 \<le> K" and "0 < K" by simp_all
      from ulp_shift_lower[of x] \<open>0 < K\<close> xp have a: "2 ^ 52 * 2 ^ K \<le> x * denorm_scale"
        unfolding K_def by simp
      have "of_int m * 2 ^ j < (2 ^ 53 :: rat) * 2 ^ j" using pow53[OF m(2)] by simp
      also have "\<dots> = 2 ^ 52 * 2 ^ (j + 1)" by simp
      also have "\<dots> \<le> 2 ^ 52 * 2 ^ K" using jK by (simp add: power_increasing del: power_Suc)
      finally have "of_int m * 2 ^ j < x * denorm_scale" using a by simp
      with y show ?thesis by simp
    qed
  qed
qed

lemma denorm_scale_split: "i \<le> 1074 \<Longrightarrow> denorm_scale = 2 ^ i * 2 ^ (1074 - i)"
  unfolding denorm_scale_def by (simp only: flip: power_add) simp

lemma rnd_ge_div:
  assumes "0 \<le> m" "m < 2 ^ 53" "i \<le> 1074" "of_int m / 2 ^ i \<le> x"
  shows "of_int m / 2 ^ i \<le> rnd x"
proof -
  note ds = denorm_scale_split[OF assms(3)]
  have "of_int m / 2 ^ i * (2 ^ i * 2 ^ (1074 - i)) \<le> x * (2 ^ i * 2 ^ (1074 - i))"
    using assms(4) by (rule mult_right_mono) simp
  then have "of_int m * 2 ^ (1074 - i) \<le> x * denorm_scale" by (simp add: ds)
  from rnd_ge_scaled[OF assms(1,2) this]
  have "of_int m * 2 ^ (1074 - i) \<le> rnd x * (2 ^ i * 2 ^ (1074 - i))" by (simp only: ds)
  then show ?thesis by (simp add: field_simps)
qed

lemma rnd_le_div:
  assumes "0 \<le> m" "m < 2 ^ 53" "i \<le> 1074" "x \<le> of_int m / 2 ^ i"
  shows "rnd x \<le> of_int m / 2 ^ i"
proof -
  note ds = denorm_scale_split[OF assms(3)]
  have "x * (2 ^ i * 2 ^ (1074 - i)) \<le> of_int m / 2 ^ i * (2 ^ i * 2 ^ (1074 - i))"
    using assms(4) by (rule mult_right_mono) simp
  then have "x * denorm_scale \<le> of_int m * 2 ^ (1074 - i)" by (simp add: ds)
  from rnd_le_scaled[OF assms(1,2) this]
  have "rnd x * (2 ^ i * 2 ^ (1074 - i)) \<le> of_int m * 2 ^ (1074 - i)" by (simp only: ds)
  then show ?thesis by (simp add: field_simps)
qed

lemma rnd_ge_int:
  assumes "0 \<le> m" "m < 2 ^ 53" "of_int m \<le> x"
  shows "of_int m \<le> rnd x"
  using rnd_ge_div[of m 0 x] assms by simp

lemma rnd_le_int:
  assumes "0 \<le> m" "m < 2 ^ 53" "x \<le> of_int m"
  shows "rnd x \<le> of_int m"
  using rnd_le_div[of m 0 x] assms by simp

lemma rnd_le_pow2:
  assumes "x \<le> 2 ^ i"
  shows "rnd x \<le> 2 ^ i"
proof -
  have "x * denorm_scale \<le> 2 ^ i * denorm_scale"
    using assms denorm_scale_pos by simp
  then have "x * denorm_scale \<le> of_int 1 * 2 ^ (i + 1074)"
    by (simp add: denorm_scale_def power_add)
  from rnd_le_scaled[OF _ _ this] have "rnd x * denorm_scale \<le> 2 ^ i * denorm_scale"
    by (simp add: denorm_scale_def power_add)
  then show ?thesis using denorm_scale_pos by simp
qed

lemma rnd_nonneg: "0 \<le> x \<Longrightarrow> 0 \<le> rnd x"
  using rnd_ge_int[of 0 x] by simp

lemma rnd_nonpos: "x \<le> 0 \<Longrightarrow> rnd x \<le> 0"
  using rnd_le_int[of 0 x] by simp

lemma rnd_abs_le_pow2:
  assumes "\<bar>x\<bar> \<le> 2 ^ i"
  shows "\<bar>rnd x\<bar> \<le> 2 ^ i"
proof -
  have "rnd x \<le> 2 ^ i" using assms by (intro rnd_le_pow2) simp
  moreover have "rnd (- x) \<le> 2 ^ i" using assms by (intro rnd_le_pow2) simp
  ultimately show ?thesis by (simp add: rnd_uminus abs_le_iff)
qed

lemma round64_finite:
  assumes "\<bar>x\<bar> \<le> 2 ^ i" "i < 1024"
  shows "round64 x = Finite (rnd x)"
proof -
  have "\<bar>rnd x\<bar> \<le> 2 ^ i" using assms(1) by (rule rnd_abs_le_pow2)
  also have "(2::rat) ^ i < 2 ^ 1024" using assms(2) by (intro power_strict_increasing) simp_all
  finally show ?thesis by (simp add: round64_def Let_def)
qed

lemma rnd_exact_int:
  assumes "\<bar>n\<bar> < 2 ^ 53"
  shows "rnd (of_int n) = of_int n"
proof (cases "0 \<le> n")
  case True
  with assms have "n < 2 ^ 53" by simp
  from rnd_ge_int[OF True this, of "of_int n"] rnd_le_int[OF True this, of "of_int n"]
  show ?thesis by simp
next
  case False
  then have p: "0 \<le> - n" by simp
  from assms False have "- n < 2 ^ 53" by simp
  from rnd_ge_int[OF p this, of "of_int (- n)"] rnd_le_int[OF p this, of "of_int (- n)"]
  have "rnd (of_int (- n)) = of_int (- n)" by simp
  then show ?thesis by (simp add: rnd_uminus)
qed

lemma rnd_ge_half:
  assumes m: "2 ^ 52 < m" "m < 2 ^ 53" and i: "i \<le> 1074"
    and x: "(of_int m - 1 / 2) / 2 ^ i < x"
  shows "of_int m / 2 ^ i \<le> rnd x"
proof (cases "of_int m / 2 ^ i \<le> x")
  case True
  with m i show ?thesis by (intro rnd_ge_div) simp_all
next
  case False
  define K where "K = ulp_shift x"
  define j where "j = 1074 - i"
  define q where "q = x * denorm_scale / 2 ^ K"
  have ds: "denorm_scale = 2 ^ i * 2 ^ j" unfolding j_def by (rule denorm_scale_split[OF i])
  have q: "q * 2 ^ K = x * denorm_scale" by (simp add: q_def)
  have R: "rnd x * denorm_scale = of_int (rne q) * 2 ^ K"
    unfolding q_def K_def by (rule rnd_unfold)
  have m52: "(2::rat) ^ 52 < of_int m" using m(1) by (metis of_int_less_iff of_int_numeral of_int_power)
  have xp: "0 < x"
  proof -
    have "(0::rat) \<le> (of_int m - 1 / 2) / 2 ^ i" using m52 by simp
    with x show ?thesis by simp
  qed
  have "(of_int m - 1 / 2) / 2 ^ i * (2 ^ i * 2 ^ j) < x * (2 ^ i * 2 ^ j)"
    using x by (rule mult_strict_right_mono) simp
  then have lo: "(of_int m - 1 / 2) * 2 ^ j < x * denorm_scale" by (simp add: ds)
  have "x * (2 ^ i * 2 ^ j) < of_int m / 2 ^ i * (2 ^ i * 2 ^ j)"
    using False by (intro mult_strict_right_mono) simp_all
  then have hi: "x * denorm_scale < of_int m * 2 ^ j" by (simp add: ds)
  have Kj: "K = j"
  proof (rule ccontr)
    assume "K \<noteq> j"
    then consider "K < j" | "j < K" by linarith
    then show False
    proof cases
      case 1
      then have "K + 1 \<le> j" by simp
      have "x * denorm_scale < 2 ^ 53 * 2 ^ K"
        using ulp_shift_upper[of x] xp by (simp add: K_def)
      also have "\<dots> = 2 ^ 52 * 2 ^ (K + 1)" by simp
      also have "\<dots> \<le> 2 ^ 52 * (2::rat) ^ j"
        using \<open>K + 1 \<le> j\<close> by (simp add: power_increasing del: power_Suc)
      also have "\<dots> \<le> (of_int m - 1 / 2) * 2 ^ j" using m52 m(1)
      proof -
        have "2 ^ 52 + 1 \<le> m" using m(1) by simp
        then have "(of_int (2 ^ 52 + 1) :: rat) \<le> of_int m" by (simp only: of_int_le_iff)
        then have "(2::rat) ^ 52 \<le> of_int m - 1 / 2" by simp
        then show ?thesis by simp
      qed
      finally show False using lo by simp
    next
      case 2
      then have "j + 1 \<le> K" "0 < K" by simp_all
      from ulp_shift_lower[of x] \<open>0 < K\<close> xp have "2 ^ 52 * 2 ^ K \<le> x * denorm_scale"
        unfolding K_def by simp
      moreover have "of_int m * 2 ^ j < (2 ^ 53 :: rat) * 2 ^ j" using pow53[OF m(2)] by simp
      moreover have "(2 ^ 53 :: rat) * 2 ^ j = 2 ^ 52 * 2 ^ (j + 1)" by simp
      moreover have "2 ^ 52 * 2 ^ (j + 1) \<le> 2 ^ 52 * (2::rat) ^ K"
        using \<open>j + 1 \<le> K\<close> by (simp add: power_increasing del: power_Suc)
      ultimately show False using hi by linarith
    qed
  qed
  have "(of_int m - 1 / 2) * 2 ^ j < q * 2 ^ K" using lo by (simp only: q)
  then have "(of_int m - 1 / 2) * 2 ^ j < q * 2 ^ j" by (simp only: Kj)
  then have "of_int m - 1 / 2 < q" by simp
  from rne_ge_half[OF this] have "(of_int m :: rat) \<le> of_int (rne q)" by (simp only: of_int_le_iff)
  then have "of_int m * 2 ^ j \<le> (of_int (rne q) :: rat) * 2 ^ K" by (simp add: Kj)
  then have "of_int m * 2 ^ j \<le> rnd x * (2 ^ i * 2 ^ j)" by (simp only: R flip: ds)
  then show ?thesis by (simp add: field_simps)
qed




section \<open>Properties of the decision step\<close>

lemma round64_int_small:
  assumes "\<bar>n\<bar> < 2 ^ 53"
  shows "round64 (of_int n) = Finite (of_int n)"
proof -
  have "\<bar>of_int n :: rat\<bar> \<le> 2 ^ 53"
    using assms by (metis less_imp_le of_int_abs of_int_le_iff of_int_numeral of_int_power)
  from round64_finite[OF this] show ?thesis by (simp add: rnd_exact_int[OF assms])
qed

lemma ratio_value:
  assumes B: "0 < B" "B < 2 ^ 53" and S: "0 \<le> S" "S \<le> B"
  shows "fmul (fdiv (round64 (of_int S)) (round64 (of_int B))) (Finite 100)
         = Finite (rnd (rnd (of_int S / of_int B) * 100))"
proof -
  define q :: rat where "q = of_int S / of_int B"
  have fS: "round64 (of_int S) = Finite (of_int S)" using B S by (intro round64_int_small) simp
  have fB: "round64 (of_int B) = Finite (of_int B)" using B by (intro round64_int_small) simp
  have q01: "0 \<le> q" "q \<le> 1" using S B by (simp_all add: q_def)
  have rq01: "0 \<le> rnd q" "rnd q \<le> 1"
    using rnd_nonneg[OF q01(1)] rnd_le_int[of 1 q] q01(2) by simp_all
  have fq: "round64 q = Finite (rnd q)" using q01 by (intro round64_finite[of _ 0]) simp_all
  have y: "\<bar>rnd q * 100\<bar> \<le> 2 ^ 7" using rq01 by simp
  have fy: "round64 (rnd q * 100) = Finite (rnd (rnd q * 100))"
    using y by (rule round64_finite) simp
  show ?thesis
    using B by (simp add: fS fB fq[unfolded q_def] fy[unfolded q_def])
qed

lemma ratio_nonneg_small:
  assumes B: "0 < B" "B \<le> 2 ^ 52" and S: "0 \<le> S" "S \<le> B"
  shows "rnd (rnd (of_int S / of_int B) * 100) < 10 \<longleftrightarrow> 10 * S < B"
proof -
  define q :: rat where "q = of_int S / of_int B"
  have Bpos: "(0::rat) < of_int B" using B by simp
  have "rnd (rnd q * 100) < 10 \<longleftrightarrow> 10 * S < B"
  proof (cases "10 * S < B")
    case True
    then have "10 * S * 2 ^ 56 \<le> (B - 1) * 2 ^ 56" by simp
    also have "\<dots> \<le> 10 * B * 7205759403792792" using B by simp
    finally have "S * 2 ^ 56 \<le> B * 7205759403792792" by simp
    then have "(of_int (S * 2 ^ 56) :: rat) \<le> of_int (B * 7205759403792792)"
      by (simp only: of_int_le_iff)
    then have "q \<le> of_int 7205759403792792 / 2 ^ 56"
      using Bpos by (simp add: q_def field_simps)
    then have "rnd q \<le> of_int 7205759403792792 / 2 ^ 56"
      by (intro rnd_le_div) simp_all
    then have "rnd q * 100 \<le> of_int 5629499534213119 / 2 ^ 49" by simp
    then have "rnd (rnd q * 100) \<le> of_int 5629499534213119 / 2 ^ 49"
      by (intro rnd_le_div) simp_all
    then have "rnd (rnd q * 100) < 10" by simp
    with True show ?thesis by simp
  next
    case False
    then have "B \<le> 10 * S" by simp
    then have "(of_int B :: rat) \<le> of_int (10 * S)" by (simp only: of_int_le_iff)
    then have "1 / 10 \<le> q" using Bpos by (simp add: q_def field_simps)
    then have "(of_int 7205759403792794 - 1 / 2) / 2 ^ 56 < q" by simp
    then have "of_int 7205759403792794 / 2 ^ 56 \<le> rnd q"
      by (intro rnd_ge_half) simp_all
    then have "of_int 10 \<le> rnd q * 100" by simp
    then have "of_int 10 \<le> rnd (rnd q * 100)"
      by (intro rnd_ge_int) simp_all
    with False show ?thesis by simp
  qed
  then show ?thesis by (simp only: q_def)
qed

lemma ratio_neg:
  assumes B: "0 < B" "B < 2 ^ 53" and S: "S < 0" "- (2 ^ 63) \<le> S"
  shows "\<exists>z. fmul (fdiv (round64 (of_int S)) (round64 (of_int B))) (Finite 100) = Finite z
            \<and> z < 10"
proof -
  define s :: rat where "s = rnd (of_int S)"
  define q :: rat where "q = s / of_int B"
  have B1: "(1::rat) \<le> of_int B" using B by simp
  have aS: "\<bar>of_int S :: rat\<bar> \<le> 2 ^ 63"
  proof -
    have "\<bar>S\<bar> \<le> 2 ^ 63" using S by simp
    then show ?thesis by (metis of_int_abs of_int_le_iff of_int_numeral of_int_power)
  qed
  have fS: "round64 (of_int S) = Finite s" unfolding s_def using aS by (rule round64_finite) simp
  have fB: "round64 (of_int B) = Finite (of_int B)" using B by (intro round64_int_small) simp
  have s: "s \<le> 0" "\<bar>s\<bar> \<le> 2 ^ 63"
    unfolding s_def using S rnd_nonpos[of "of_int S"] rnd_abs_le_pow2[OF aS] by simp_all
  have q: "q \<le> 0" "\<bar>q\<bar> \<le> 2 ^ 63"
  proof -
    show "q \<le> 0" using s(1) B1 by (simp add: q_def divide_le_0_iff)
    have "\<bar>q\<bar> = \<bar>s\<bar> / of_int B" using B1 by (simp add: q_def)
    also have "\<dots> \<le> \<bar>s\<bar> / 1" using B1 by (intro divide_left_mono) simp_all
    finally show "\<bar>q\<bar> \<le> 2 ^ 63" using s(2) by simp
  qed
  have fq: "round64 q = Finite (rnd q)" using q(2) by (rule round64_finite) simp
  have rq: "rnd q \<le> 0" "\<bar>rnd q\<bar> \<le> 2 ^ 63"
    using rnd_nonpos[OF q(1)] rnd_abs_le_pow2[OF q(2)] by simp_all
  have y: "rnd q * 100 \<le> 0" "\<bar>rnd q * 100\<bar> \<le> 2 ^ 70"
    using rq by (simp_all add: mult_le_0_iff abs_mult)
  have fy: "round64 (rnd q * 100) = Finite (rnd (rnd q * 100))"
    using y(2) by (rule round64_finite) simp
  have "rnd (rnd q * 100) \<le> 0" using y(1) by (rule rnd_nonpos)
  moreover have "fmul (fdiv (round64 (of_int S)) (round64 (of_int B))) (Finite 100)
            = Finite (rnd (rnd q * 100))"
    using B by (simp add: fS fB fq[unfolded q_def] fy[unfolded q_def] q_def)
  ultimately show ?thesis by simp
qed

lemma sint_sub_sizes:
  fixes a b :: "64 word"
  assumes "0 < sint a" "0 \<le> sint b"
  shows "sint (a - b) = sint a - sint b"
proof -
  have "sint a < 2 ^ 63" "sint b < 2 ^ 63" using sint_lt[of a] sint_lt[of b] by simp_all
  with assms have "- (2 ^ 63) \<le> sint a - sint b" "sint a - sint b < 2 ^ 63" by simp_all
  then show ?thesis by (simp add: sint_word_ariths signed_take_bit_int_eq_self)
qed

text \<open>
  Up to \<open>2 ^ 52\<close> bytes the float64 test agrees with the comparison of the exact
  ratio with 10, that is, with \<open>10 * (originalSize - compressedSize) < originalSize\<close>.
\<close>

lemma flt_ratio_exact:
  assumes "0 < sint originalSize" "sint originalSize \<le> 2 ^ 52" "0 \<le> sint compressedSize"
  shows "flt (savingRatio (originalSize - compressedSize) originalSize)
             COMPRESSION_EFFICIENCY_THRESHOLD
         \<longleftrightarrow> 10 * (sint originalSize - sint compressedSize) < sint originalSize"
proof -
  define S where "S = sint originalSize - sint compressedSize"
  have sub: "sint (originalSize - compressedSize) = S"
    unfolding S_def using assms(1,3) by (rule sint_sub_sizes)
  have lo: "- (2 ^ 63) \<le> S" "S \<le> sint originalSize"
    using assms sint_lt[of compressedSize] by (simp_all add: S_def)
  have B53: "sint originalSize < 2 ^ 53" using assms(2) by simp
  show ?thesis
  proof (cases "S < 0")
    case True
    from ratio_neg[OF assms(1) B53 True lo(1)] True assms(1) show ?thesis
      by (auto simp: savingRatio_def of_int64_def sub
          COMPRESSION_EFFICIENCY_THRESHOLD_def simp flip: S_def)
  next
    case False
    then have S0: "0 \<le> S" by simp
    from ratio_value[OF assms(1) B53 S0 lo(2)] ratio_nonneg_small[OF assms(1,2) S0 lo(2)]
    show ?thesis
      by (simp add: savingRatio_def of_int64_def sub
          COMPRESSION_EFFICIENCY_THRESHOLD_def flip: S_def)
  qed
qed

lemma decide_exact:
  assumes "0 < sint originalSize" "sint originalSize \<le> 2 ^ 52" "0 \<le> sint compressedSize"
  shows "decide originalSize compressedSize =
    (if 10 * (sint originalSize - sint compressedSize) < sint originalSize then Disable else Enable)"
  by (simp add: decide_def flt_ratio_exact[OF assms])








section \<open>One call of processFile\<close>

lemma Printf_counters:
  "totalFilesProcessed (Printf m st) = totalFilesProcessed st"
  "totalFilesCompressed (Printf m st) = totalFilesCompressed st"
  "totalFilesDecompressed (Printf m st) = totalFilesDecompressed st"
  "totalSpaceSaved (Printf m st) = totalSpaceSaved st"
  by (simp_all add: Printf_def)

lemma processFile_sample_None:
  assumes "sample fl call = None"
  shows "totalFilesProcessed (processFile fl st call) = totalFilesProcessed st"
    and "totalFilesCompressed (processFile fl st call) = totalFilesCompressed st"
    and "totalFilesDecompressed (processFile fl st call) = totalFilesDecompressed st"
    and "totalSpaceSaved (processFile fl st call) = totalSpaceSaved st"
  using assms
  by (auto simp: processFile_def sample_def passes_guard_def Let_def Printf_counters
      split: sum.splits if_splits)

lemma processFile_sample_Some:
  assumes "sample fl call = Some (originalSize, compressedSize)"
  shows "processFile fl st call = recordDecision st (fst call) originalSize compressedSize"
  using assms
  by (auto simp: processFile_def sample_def passes_guard_def Let_def
      split: sum.splits if_splits)

lemma recordDecision_processed:
  "totalFilesProcessed (recordDecision st f originalSize compressedSize) = totalFilesProcessed st + 1"
  by (simp add: recordDecision_def Let_def Printf_def split: option.splits)

lemma recordDecision_compressed:
  "totalFilesCompressed (recordDecision st f originalSize compressedSize) =
     totalFilesCompressed st +
     (if decide originalSize compressedSize = Enable \<and> enableCompression f = None then 1 else 0)"
  by (simp add: recordDecision_def decide_def Let_def Printf_def split: option.splits)

lemma recordDecision_decompressed:
  "totalFilesDecompressed (recordDecision st f originalSize compressedSize) =
     totalFilesDecompressed st +
     (if decide originalSize compressedSize = Disable \<and> disableCompression f = None then 1 else 0)"
  by (simp add: recordDecision_def decide_def Let_def Printf_def split: option.splits)

lemma recordDecision_saved:
  "totalSpaceSaved (recordDecision st f originalSize compressedSize) =
     totalSpaceSaved st +
     (if decide originalSize compressedSize = Enable \<and> enableCompression f = None
      then originalSize - compressedSize else 0)"
  by (simp add: recordDecision_def decide_def Let_def Printf_def split: option.splits)

lemma processFile_processed:
  "totalFilesProcessed (processFile fl st call) =
     totalFilesProcessed st + (if sample fl call = None then 0 else 1)"
  by (cases "sample fl call")
     (auto simp: processFile_sample_None processFile_sample_Some recordDecision_processed)

lemma processFile_compressed:
  "totalFilesCompressed (processFile fl st call) =
     totalFilesCompressed st + (if compressed fl call then 1 else 0)"
proof (cases "sample fl call")
  case None
  then show ?thesis by (simp add: processFile_sample_None compressed_def)
next
  case (Some sizes)
  obtain a b where "sizes = (a, b)" by (cases sizes)
  with Some have s: "sample fl call = Some (a, b)" by simp
  show ?thesis
    by (simp add: processFile_sample_Some[OF s] recordDecision_compressed s compressed_def)
qed

lemma processFile_decompressed:
  "totalFilesDecompressed (processFile fl st call) =
     totalFilesDecompressed st + (if decompressed fl call then 1 else 0)"
proof (cases "sample fl call")
  case None
  then show ?thesis by (simp add: processFile_sample_None decompressed_def)
next
  case (Some sizes)
  obtain a b where "sizes = (a, b)" by (cases sizes)
  with Some have s: "sample fl call = Some (a, b)" by simp
  show ?thesis
    by (simp add: processFile_sample_Some[OF s] recordDecision_decompressed s decompressed_def)
qed

lemma processFile_saved:
  "totalSpaceSaved (processFile fl st call) =
     totalSpaceSaved st + (if compressed fl call then bytes_saved fl call else 0)"
proof (cases "sample fl call")
  case None
  then show ?thesis by (simp add: processFile_sample_None compressed_def bytes_saved_def)
next
  case (Some sizes)
  obtain a b where "sizes = (a, b)" by (cases sizes)
  with Some have s: "sample fl call = Some (a, b)" by simp
  show ?thesis
    by (simp add: processFile_sample_Some[OF s] recordDecision_saved s compressed_def bytes_saved_def)
qed

text \<open>A call that reaches the decision has exactly one of three outcomes.\<close>

lemma outcome_cases:
  "(if sample fl call = None then 0 else 1 :: int) =
     (if compressed fl call then 1 else 0) + (if decompressed fl call then 1 else 0)
     + (if apply_failed fl call then 1 else 0)"
proof (cases "sample fl call")
  case None
  then show ?thesis by (simp add: compressed_def decompressed_def apply_failed_def)
next
  case (Some sizes)
  obtain a b where "sizes = (a, b)" by (cases sizes)
  with Some show ?thesis
    by (cases "decide a b") (auto simp: compressed_def decompressed_def apply_failed_def)
qed

section \<open>A run of calls\<close>

lemma run_Nil: "run fl st [] = st"
  by (simp add: run_def)

lemma run_Cons: "run fl st (call # calls) = run fl (processFile fl st call) calls"
  by (simp add: run_def)

lemma run_snoc: "run fl st (calls @ [call]) = processFile fl (run fl st calls) call"
  by (simp add: run_def)

lemma run_processed:
  "totalFilesProcessed (run fl st calls) =
     totalFilesProcessed st + int (length (filter (\<lambda>c. sample fl c \<noteq> None) calls))"
  by (induction calls arbitrary: st) (simp_all add: run_Nil run_Cons processFile_processed)

lemma run_compressed:
  "totalFilesCompressed (run fl st calls) =
     totalFilesCompressed st + int (length (filter (compressed fl) calls))"
  by (induction calls arbitrary: st) (simp_all add: run_Nil run_Cons processFile_compressed)

lemma run_decompressed:
  "totalFilesDecompressed (run fl st calls) =
     totalFilesDecompressed st + int (length (filter (decompressed fl) calls))"
  by (induction calls arbitrary: st) (simp_all add: run_Nil run_Cons processFile_decompressed)

lemma run_saved:
  "totalSpaceSaved (run fl st calls) =
     totalSpaceSaved st + sum_list (map (bytes_saved fl) (filter (compressed fl) calls))"
  by (induction calls arbitrary: st) (simp_all add: run_Nil run_Cons processFile_saved)

lemma count_outcomes:
  "int (length (filter (\<lambda>c. sample fl c \<noteq> None) calls)) =
     int (length (filter (compressed fl) calls)) + int (length (filter (decompressed fl) calls))
     + int (length (filter (apply_failed fl) calls))"
proof (induction calls)
  case Nil
  then show ?case by simp
next
  case (Cons c calls)
  from outcome_cases[of fl c] Cons show ?case by (simp split: if_splits)
qed

section \<open>The concrete inputs evaluated\<close>

lemma estimate_plain_file:
  assumes "bs \<noteq> []"
  shows "compressFileInMemory dedup_flate (plain_file p bs) =
           Inr (of_nat (length bs), of_nat (length (remdups_adj bs)))"
  using assms by (simp add: compressFileInMemory_def dedup_flate_def plain_file_def)

lemma sample_plain_file:
  assumes "bs \<noteq> []" "\<not> sint Frees < sint (of_nat (length bs) :: 64 word)"
  shows "sample dedup_flate (plain_file p bs, Frees) =
           Some (of_nat (length bs), of_nat (length (remdups_adj bs)))"
  using assms(2) by (simp add: sample_def passes_guard_def estimate_plain_file[OF assms(1)])
     (simp add: plain_file_def)

lemma sample_repetitive: "sample dedup_flate (repetitive, 1000) = Some (10, 1)"
  unfolding repetitive_def by (subst sample_plain_file) simp_all

lemma sample_varied: "sample dedup_flate (varied, 1000) = Some (10, 10)"
  unfolding varied_def by (subst sample_plain_file) simp_all

lemma sample_small: "sample dedup_flate (small, Frees) = (if sint Frees < 3 then None else Some (3, 3))"
  by (simp add: small_def sample_def passes_guard_def estimate_plain_file)
     (simp add: plain_file_def)

lemma sample_repetitive_guard:
  "sample dedup_flate (repetitive, Frees) = (if sint Frees < 10 then None else Some (10, 1))"
  by (simp add: repetitive_def sample_def passes_guard_def estimate_plain_file)
     (simp add: plain_file_def)

lemma sample_unreadable: "sample dedup_flate (unreadable, 1000) = None"
  by (simp add: unreadable_def sample_def compressFileInMemory_def plain_file_def)

lemma estimation_failed_unreadable: "estimation_failed dedup_flate (unreadable, 1000)"
  by (simp add: unreadable_def estimation_failed_def passes_guard_def compressFileInMemory_def
      plain_file_def)

lemma sample_locked: "sample dedup_flate (locked, 1000) = Some (10, 1)"
  by (simp add: locked_def sample_def passes_guard_def compressFileInMemory_def dedup_flate_def
      plain_file_def)

lemma decide_examples:
  "decide 10 1 = Enable" "decide 10 10 = Disable" "decide 3 3 = Disable"
  by (simp_all add: decide_exact)

lemma controller_examples:
  "enableCompression repetitive = None" "disableCompression varied = None"
  "disableCompression small = None" "enableCompression locked \<noteq> None"
  by (simp_all add: enableCompression_def disableCompression_def setCompression_def
      repetitive_def varied_def small_def locked_def plain_file_def)

lemma outcomes_repetitive:
  "compressed dedup_flate (repetitive, 1000)" "\<not> decompressed dedup_flate (repetitive, 1000)"
  "\<not> apply_failed dedup_flate (repetitive, 1000)" "bytes_saved dedup_flate (repetitive, 1000) = 9"
  by (simp_all add: compressed_def decompressed_def apply_failed_def bytes_saved_def
      sample_repetitive decide_examples controller_examples)

lemma outcomes_varied:
  "\<not> compressed dedup_flate (varied, 1000)" "decompressed dedup_flate (varied, 1000)"
  "\<not> apply_failed dedup_flate (varied, 1000)"
  by (simp_all add: compressed_def decompressed_def apply_failed_def
      sample_varied decide_examples controller_examples)

lemma outcomes_unreadable:
  "\<not> compressed dedup_flate (unreadable, 1000)" "\<not> decompressed dedup_flate (unreadable, 1000)"
  "\<not> apply_failed dedup_flate (unreadable, 1000)"
  by (simp_all add: compressed_def decompressed_def apply_failed_def sample_unreadable)

lemma outcomes_locked:
  "\<not> compressed dedup_flate (locked, 1000)" "\<not> decompressed dedup_flate (locked, 1000)"
  "apply_failed dedup_flate (locked, 1000)"
  using controller_examples(4)
  by (simp_all add: compressed_def decompressed_def apply_failed_def sample_locked
      decide_examples)

section \<open>Properties of the statistics\<close>

text \<open>
  C1 (as amended). After the pool has drained, \<open>totalFilesProcessed\<close> is the sum of
  \<open>totalFilesCompressed\<close>, \<open>totalFilesDecompressed\<close> and the number of files whose
  estimation succeeded and whose controller call failed. It counts the files that
  reached the decision: a file whose size lookup, memory guard or estimation fails is
  not counted as processed.
\<close>

theorem processed_is_compressed_decompressed_apply_failed:
  "totalFilesProcessed (run fl initial calls) =
     totalFilesCompressed (run fl initial calls) + totalFilesDecompressed (run fl initial calls)
     + int (length (filter (apply_failed fl) calls))
   \<and> totalFilesProcessed (run fl initial calls) =
     int (length (filter (\<lambda>c. sample fl c \<noteq> None) calls))"
  by (simp only: run_processed run_compressed run_decompressed count_outcomes) (simp add: initial_def)

theorem processed_is_compressed_decompressed_apply_failed_witness:
  "totalFilesProcessed (run dedup_flate initial
      [(repetitive, 1000), (varied, 1000), (locked, 1000), (unreadable, 1000)]) = 3"
  using processed_is_compressed_decompressed_apply_failed
    [of dedup_flate "[(repetitive, 1000), (varied, 1000), (locked, 1000), (unreadable, 1000)]"]
  by (simp add: run_compressed run_decompressed outcomes_repetitive outcomes_varied
      outcomes_locked outcomes_unreadable initial_def)

text \<open>
  The claim as stated counts in \<open>filesFailed\<close> the files whose estimation failed as
  well. One file that cannot be opened is not counted as processed, and the equation
  fails.
\<close>

theorem processed_counts_estimation_failures_counterexample:
  "estimation_failed dedup_flate (unreadable, 1000)
   \<and> totalFilesProcessed (run dedup_flate initial [(unreadable, 1000)]) = 0
   \<and> totalFilesCompressed (run dedup_flate initial [(unreadable, 1000)]) = 0
   \<and> totalFilesDecompressed (run dedup_flate initial [(unreadable, 1000)]) = 0
   \<and> totalFilesProcessed (run dedup_flate initial [(unreadable, 1000)]) \<noteq>
       totalFilesCompressed (run dedup_flate initial [(unreadable, 1000)])
       + totalFilesDecompressed (run dedup_flate initial [(unreadable, 1000)])
       + int (length (filter (\<lambda>c. estimation_failed dedup_flate c \<or> apply_failed dedup_flate c)
                        [(unreadable, 1000)]))"
  by (simp add: run_processed run_compressed run_decompressed sample_unreadable
      outcomes_unreadable estimation_failed_unreadable initial_def)

lemma word_of_int_sum_list_sint:
  "word_of_int (sum_list (map sint ws)) = (sum_list ws :: 64 word)"
  by (induction ws) simp_all

lemma sint_sum_list:
  fixes ws :: "64 word list"
  assumes "- (2 ^ 63) \<le> sum_list (map sint ws)" "sum_list (map sint ws) < 2 ^ 63"
  shows "sint (sum_list ws) = sum_list (map sint ws)"
proof -
  have "sint (sum_list ws) = sint (word_of_int (sum_list (map sint ws)) :: 64 word)"
    by (simp only: word_of_int_sum_list_sint)
  also have "\<dots> = sum_list (map sint ws)"
    using assms by (simp add: sint_sbintrunc' signed_take_bit_int_eq_self)
  finally show ?thesis .
qed

lemma bytes_saved_int:
  assumes "sample fl call = Some (originalSize, compressedSize)"
    and "0 \<le> sint originalSize" "0 \<le> sint compressedSize"
  shows "sint (bytes_saved fl call) = sint originalSize - sint compressedSize"
proof -
  have "sint originalSize < 2 ^ 63" "sint compressedSize < 2 ^ 63"
    using sint_lt[of originalSize] sint_lt[of compressedSize] by simp_all
  with assms(2,3) have "- (2 ^ 63) \<le> sint originalSize - sint compressedSize"
    "sint originalSize - sint compressedSize < 2 ^ 63" by simp_all
  then show ?thesis
    by (simp add: bytes_saved_def assms(1) sint_word_ariths signed_take_bit_int_eq_self)
qed

text \<open>
  C7. The final \<open>totalSpaceSaved\<close> is the sum of \<open>originalSize - compressedSize\<close> over
  exactly the calls that decided Enable and whose \<^verbatim>\<open>enableCompression\<close> succeeded: as an
  equation in the \<^verbatim>\<open>int64\<close> arithmetic of the program, and as an equation between
  integers whenever the sum fits an \<^verbatim>\<open>int64\<close>.
\<close>

theorem totalSpaceSaved_is_sum_over_compressed:
  "totalSpaceSaved (run fl initial calls) =
     sum_list (map (bytes_saved fl) (filter (compressed fl) calls))
   \<and> (- (2 ^ 63) \<le> sum_list (map (\<lambda>c. sint (bytes_saved fl c)) (filter (compressed fl) calls))
      \<and> sum_list (map (\<lambda>c. sint (bytes_saved fl c)) (filter (compressed fl) calls)) < 2 ^ 63
      \<longrightarrow> sint (totalSpaceSaved (run fl initial calls)) =
            sum_list (map (\<lambda>c. sint (bytes_saved fl c)) (filter (compressed fl) calls)))"
proof -
  have eq: "totalSpaceSaved (run fl initial calls) =
     sum_list (map (bytes_saved fl) (filter (compressed fl) calls))"
    by (simp add: run_saved initial_def)
  have m: "map sint (map (bytes_saved fl) (filter (compressed fl) calls))
           = map (\<lambda>c. sint (bytes_saved fl c)) (filter (compressed fl) calls)"
    by simp
  show ?thesis
    using sint_sum_list[of "map (bytes_saved fl) (filter (compressed fl) calls)"]
    unfolding m eq by simp
qed

theorem totalSpaceSaved_is_sum_over_compressed_witness:
  "sum_list (map (\<lambda>c. sint (bytes_saved dedup_flate c)) (filter (compressed dedup_flate)
      [(repetitive, 1000), (varied, 1000), (locked, 1000), (unreadable, 1000)])) = 9
   \<and> totalSpaceSaved (run dedup_flate initial
      [(repetitive, 1000), (varied, 1000), (locked, 1000), (unreadable, 1000)]) = 9
   \<and> sint (totalSpaceSaved (run dedup_flate initial
      [(repetitive, 1000), (varied, 1000), (locked, 1000), (unreadable, 1000)])) = 9"
  using totalSpaceSaved_is_sum_over_compressed
    [of dedup_flate "[(repetitive, 1000), (varied, 1000), (locked, 1000), (unreadable, 1000)]"]
  by (simp add: outcomes_repetitive outcomes_varied outcomes_locked outcomes_unreadable)

text \<open>
  Counts and sums over the calls that depend on a call only through a key are the
  same for two lists of calls with the same keys.
\<close>

lemma mset_map_by_key:
  assumes "mset (map k xs) = mset (map k ys)" and "\<And>a b. k a = k b \<Longrightarrow> h a = h b"
  shows "mset (map h xs) = mset (map h ys)"
proof -
  define h' where "h' = (\<lambda>key. h (SOME a. k a = key))"
  have "h a = h' (k a)" for a
  proof -
    have "k (SOME b. k b = k a) = k a" by (rule someI[of "\<lambda>b. k b = k a"]) simp
    then show ?thesis unfolding h'_def by (rule assms(2)[symmetric])
  qed
  then have e: "map h zs = map h' (map k zs)" for zs by simp
  have "mset (map h xs) = image_mset h' (mset (map k xs))" by (subst e) (simp only: mset_map)
  also have "\<dots> = image_mset h' (mset (map k ys))" by (simp only: assms(1))
  also have "\<dots> = mset (map h ys)" by (subst e) (simp only: mset_map)
  finally show ?thesis .
qed

lemma length_filter_as_mset:
  "length (filter P xs) = size (filter_mset (\<lambda>b. b) (mset (map P xs)))"
  by (induction xs) simp_all

lemma sum_filter_as_mset:
  fixes f :: "'a \<Rightarrow> 'b::comm_monoid_add"
  shows "sum_list (map f (filter P xs)) = sum_mset (mset (map (\<lambda>x. if P x then f x else 0) xs))"
  by (induction xs) simp_all

lemma length_filter_by_key:
  assumes "mset (map k xs) = mset (map k ys)" and "\<And>a b. k a = k b \<Longrightarrow> P a = P b"
  shows "length (filter P xs) = length (filter P ys)"
  by (simp only: length_filter_as_mset mset_map_by_key[OF assms])

lemma sum_filter_by_key:
  fixes f :: "'a \<Rightarrow> 'b::comm_monoid_add"
  assumes "mset (map k xs) = mset (map k ys)" and "\<And>a b. k a = k b \<Longrightarrow> P a = P b"
    and "\<And>a b. k a = k b \<Longrightarrow> f a = f b"
  shows "sum_list (map f (filter P xs)) = sum_list (map f (filter P ys))"
proof -
  have "(if P a then f a else 0) = (if P b then f b else 0)" if "k a = k b" for a b
    using assms(2,3)[OF that] by simp
  from mset_map_by_key[OF assms(1), of "\<lambda>x. if P x then f x else 0", OF this]
  show ?thesis by (simp only: sum_filter_as_mset)
qed

lemma guard_key_eqD:
  assumes "guard_key a = guard_key b"
  shows "fst a = fst b" "passes_guard a = passes_guard b"
proof -
  from assms have "fst (guard_key a) = fst (guard_key b)" by (rule arg_cong)
  then show "fst a = fst b" by (simp only: guard_key_def fst_conv)
  from assms have "snd (guard_key a) = snd (guard_key b)" by (rule arg_cong)
  then show "passes_guard a = passes_guard b" by (simp only: guard_key_def snd_conv)
qed

lemma sample_by_guard_key:
  assumes "guard_key a = guard_key b"
  shows "sample fl a = sample fl b"
  by (simp only: sample_def guard_key_eqD[OF assms])

lemma outcomes_by_guard_key:
  assumes "guard_key a = guard_key b"
  shows "compressed fl a = compressed fl b" "decompressed fl a = decompressed fl b"
    "bytes_saved fl a = bytes_saved fl b"
  by (simp_all only: compressed_def decompressed_def bytes_saved_def
      sample_by_guard_key[OF assms, of fl] guard_key_eqD(1)[OF assms])

text \<open>
  C9 (as amended). Take the same files, with fixed size-lookup, estimation and apply
  results, in two runs in which every file has the same outcome of the memory guard.
  Then the final counters are the same, whatever the order in which the calls enter
  the locked region and whatever readings of \<^verbatim>\<open>memStat.Frees\<close> lead to those outcomes.
\<close>

theorem statistics_independent_of_order:
  assumes "mset (map guard_key calls) = mset (map guard_key calls')"
  shows "totalFilesProcessed (run fl st calls) = totalFilesProcessed (run fl st calls')
       \<and> totalFilesCompressed (run fl st calls) = totalFilesCompressed (run fl st calls')
       \<and> totalFilesDecompressed (run fl st calls) = totalFilesDecompressed (run fl st calls')
       \<and> totalSpaceSaved (run fl st calls) = totalSpaceSaved (run fl st calls')"
proof -
  have "length (filter (\<lambda>c. sample fl c \<noteq> None) calls)
        = length (filter (\<lambda>c. sample fl c \<noteq> None) calls')"
  proof (rule length_filter_by_key[OF assms])
    fix a b :: "file_env \<times> 64 word"
    assume "guard_key a = guard_key b"
    then have "sample fl a = sample fl b" by (rule sample_by_guard_key)
    then show "(sample fl a \<noteq> None) = (sample fl b \<noteq> None)" by (rule arg_cong)
  qed
  moreover have "length (filter (compressed fl) calls) = length (filter (compressed fl) calls')"
    using assms by (rule length_filter_by_key) (erule outcomes_by_guard_key)
  moreover have "length (filter (decompressed fl) calls) = length (filter (decompressed fl) calls')"
    using assms by (rule length_filter_by_key) (erule outcomes_by_guard_key)
  moreover have "sum_list (map (bytes_saved fl) (filter (compressed fl) calls))
        = sum_list (map (bytes_saved fl) (filter (compressed fl) calls'))"
    using assms by (rule sum_filter_by_key) (erule outcomes_by_guard_key)+
  ultimately show ?thesis
    by (simp only: run_processed run_compressed run_decompressed run_saved)
qed

theorem statistics_independent_of_order_witness:
  "mset (map guard_key [(repetitive, 1000), (varied, 2000)])
     = mset (map guard_key [(varied, 1000), (repetitive, 2000)])
   \<and> totalFilesProcessed (run dedup_flate initial [(repetitive, 1000), (varied, 2000)])
     = totalFilesProcessed (run dedup_flate initial [(varied, 1000), (repetitive, 2000)])
   \<and> totalSpaceSaved (run dedup_flate initial [(repetitive, 1000), (varied, 2000)])
     = totalSpaceSaved (run dedup_flate initial [(varied, 1000), (repetitive, 2000)])"
proof -
  have g: "guard_key (repetitive, 1000) = (repetitive, True)"
    "guard_key (repetitive, 2000) = (repetitive, True)"
    "guard_key (varied, 1000) = (varied, True)" "guard_key (varied, 2000) = (varied, True)"
    by (simp_all add: guard_key_def passes_guard_def repetitive_def varied_def plain_file_def)
  have h: "mset (map guard_key [(repetitive, 1000), (varied, 2000)])
     = mset (map guard_key [(varied, 1000), (repetitive, 2000)])"
    by (simp only: g list.map mset.simps add_mset_commute)
  note T = statistics_independent_of_order[OF h, of dedup_flate initial]
  show ?thesis
    by (intro conjI) (rule h, rule T[THEN conjunct1],
      rule T[THEN conjunct2, THEN conjunct2, THEN conjunct2])
qed

text \<open>
  The claim as stated fixes the estimation and apply results only. With the same two
  files and the same two successive readings 5 and 200 of \<^verbatim>\<open>memStat.Frees\<close>, the order
  of the two calls changes \<open>totalFilesProcessed\<close>: the 10-byte file is skipped when it
  comes first.
\<close>

theorem statistics_depend_on_order_counterexample:
  "totalFilesProcessed (run dedup_flate initial [(repetitive, 5), (small, 200)]) = 1
   \<and> totalFilesProcessed (run dedup_flate initial [(small, 5), (repetitive, 200)]) = 2"
  by (simp add: run_processed sample_small sample_repetitive_guard initial_def)

text \<open>
  C10. After every call of \<^verbatim>\<open>processFile\<close> in a run,
  \<open>totalFilesCompressed + totalFilesDecompressed \<le> totalFilesProcessed\<close>; and a call whose
  controller step fails leaves \<open>totalFilesCompressed\<close>, \<open>totalFilesDecompressed\<close> and
  \<open>totalSpaceSaved\<close> as they were and adds one to \<open>totalFilesProcessed\<close>.
\<close>

theorem compressed_plus_decompressed_le_processed:
  "totalFilesCompressed (run fl initial (calls @ [call]))
     + totalFilesDecompressed (run fl initial (calls @ [call]))
     \<le> totalFilesProcessed (run fl initial (calls @ [call]))
   \<and> (apply_failed fl call \<longrightarrow>
        totalFilesCompressed (processFile fl st call) = totalFilesCompressed st
      \<and> totalFilesDecompressed (processFile fl st call) = totalFilesDecompressed st
      \<and> totalSpaceSaved (processFile fl st call) = totalSpaceSaved st
      \<and> totalFilesProcessed (processFile fl st call) = totalFilesProcessed st + 1)"
proof -
  have "totalFilesCompressed (run fl initial (calls @ [call]))
     + totalFilesDecompressed (run fl initial (calls @ [call]))
     \<le> totalFilesProcessed (run fl initial (calls @ [call]))"
    by (simp only: run_processed run_compressed run_decompressed count_outcomes)
       (simp add: initial_def)
  moreover have "totalFilesCompressed (processFile fl st call) = totalFilesCompressed st
      \<and> totalFilesDecompressed (processFile fl st call) = totalFilesDecompressed st
      \<and> totalSpaceSaved (processFile fl st call) = totalSpaceSaved st
      \<and> totalFilesProcessed (processFile fl st call) = totalFilesProcessed st + 1"
    if f: "apply_failed fl call"
  proof -
    from f have s: "sample fl call \<noteq> None"
      by (auto simp: apply_failed_def split: option.splits)
    from f have "\<not> compressed fl call" "\<not> decompressed fl call"
      using outcome_cases[of fl call] s by (auto split: if_splits)
    with s show ?thesis
      by (simp add: processFile_processed processFile_compressed processFile_decompressed
          processFile_saved)
  qed
  ultimately show ?thesis by blast
qed

theorem compressed_plus_decompressed_le_processed_witness:
  "apply_failed dedup_flate (locked, 1000)
   \<and> totalFilesCompressed (processFile dedup_flate initial (locked, 1000)) = 0
   \<and> totalFilesDecompressed (processFile dedup_flate initial (locked, 1000)) = 0
   \<and> totalSpaceSaved (processFile dedup_flate initial (locked, 1000)) = 0
   \<and> totalFilesProcessed (processFile dedup_flate initial (locked, 1000)) = 1"
  using compressed_plus_decompressed_le_processed[of dedup_flate "[]" "(locked, 1000)" initial]
    outcomes_locked(3)
  by (simp add: initial_def)

section \<open>The memory guard\<close>

lemma stdout_recordDecision:
  "TooLargeSkipping p \<notin> set (stdout (recordDecision st f originalSize compressedSize))
   \<longleftrightarrow> TooLargeSkipping p \<notin> set (stdout st)"
  by (simp add: recordDecision_def Let_def Printf_def split: option.splits)

text \<open>
  C5 (as amended). When \<^verbatim>\<open>getFileSize\<close> succeeds, \<^verbatim>\<open>processFile\<close> skips the file, printing
  that it is too large, running no estimation and changing no counter, exactly when
  its size exceeds the reading that the guard takes for the available memory.
  Otherwise the file is estimated: the call ends as \<^verbatim>\<open>compressFileInMemory\<close> and the
  decision make it end, and a successful estimation counts the file as processed.
\<close>

theorem memory_guard_decides_skipping:
  assumes "stat_result f = Inr originalSize"
  shows "(TooLargeSkipping (path f) \<in> set (stdout (processFile fl initial (f, Frees)))
            \<longleftrightarrow> sint Frees < sint originalSize)
       \<and> (sint Frees < sint originalSize \<longrightarrow>
            processFile fl st (f, Frees) = Printf (TooLargeSkipping (path f)) st)
       \<and> (\<not> sint Frees < sint originalSize \<longrightarrow>
            processFile fl st (f, Frees) =
              (case compressFileInMemory fl f of
                 Inl err \<Rightarrow> Printf (ErrorCompressingInMemory (path f) err) st
               | Inr (estimatedSize, compressedSize) \<Rightarrow>
                   recordDecision st f estimatedSize compressedSize))
       \<and> (\<not> sint Frees < sint originalSize
          \<and> compressFileInMemory fl f = Inr (estimatedSize, compressedSize) \<longrightarrow>
            totalFilesProcessed (processFile fl st (f, Frees)) = totalFilesProcessed st + 1)"
proof -
  have skip: "processFile fl s (f, Frees) = Printf (TooLargeSkipping (path f)) s"
    if "sint Frees < sint originalSize" for s
    using that assms by (simp add: processFile_def)
  have pass: "processFile fl s (f, Frees) =
              (case compressFileInMemory fl f of
                 Inl err \<Rightarrow> Printf (ErrorCompressingInMemory (path f) err) s
               | Inr (estimatedSize, compressedSize) \<Rightarrow>
                   recordDecision s f estimatedSize compressedSize)"
    if "\<not> sint Frees < sint originalSize" for s
    using that assms by (simp add: processFile_def)
  have "TooLargeSkipping (path f) \<notin> set (stdout (processFile fl initial (f, Frees)))"
    if "\<not> sint Frees < sint originalSize"
    by (auto simp: pass[OF that] stdout_recordDecision Printf_def initial_def
        split: sum.splits)
  moreover have "TooLargeSkipping (path f) \<in> set (stdout (processFile fl initial (f, Frees)))"
    if "sint Frees < sint originalSize"
    using skip[OF that] by (simp add: Printf_def)
  moreover have "totalFilesProcessed (processFile fl st (f, Frees)) = totalFilesProcessed st + 1"
    if "\<not> sint Frees < sint originalSize"
      "compressFileInMemory fl f = Inr (estimatedSize, compressedSize)"
    by (simp add: pass[OF that(1)] that(2) recordDecision_processed)
  ultimately show ?thesis using skip[of st] pass[of st] by (intro conjI impI iffI) auto
qed

theorem memory_guard_decides_skipping_witness:
  "stat_result repetitive = Inr 10
   \<and> sint (5 :: 64 word) < sint (10 :: 64 word)
   \<and> processFile dedup_flate initial (repetitive, 5) = Printf (TooLargeSkipping ''a.log'') initial
   \<and> \<not> sint (1000 :: 64 word) < sint (10 :: 64 word)
   \<and> compressFileInMemory dedup_flate repetitive = Inr (10, 1)
   \<and> processFile dedup_flate initial (repetitive, 1000) = recordDecision initial repetitive 10 1
   \<and> totalFilesProcessed (processFile dedup_flate initial (repetitive, 1000)) = 1"
proof -
  have s: "stat_result repetitive = Inr 10" and p: "path repetitive = ''a.log''"
    by (simp_all add: repetitive_def plain_file_def)
  have e: "compressFileInMemory dedup_flate repetitive = Inr (10, 1)"
    unfolding repetitive_def by (subst estimate_plain_file) simp_all
  have i: "totalFilesProcessed initial = 0" by (simp add: initial_def)
  from memory_guard_decides_skipping[OF s, of dedup_flate 5 initial]
  have a: "processFile dedup_flate initial (repetitive, 5) = Printf (TooLargeSkipping ''a.log'') initial"
    by (simp add: p)
  note T = memory_guard_decides_skipping[OF s, of dedup_flate 1000 initial 10 1]
  have n: "\<not> sint (1000 :: 64 word) < sint (10 :: 64 word)" by simp
  from T[THEN conjunct2, THEN conjunct2, THEN conjunct1, rule_format, OF n] e
  have b: "processFile dedup_flate initial (repetitive, 1000) = recordDecision initial repetitive 10 1"
    by simp
  from T[THEN conjunct2, THEN conjunct2, THEN conjunct2, rule_format, OF conjI[OF n e]] i
  have c: "totalFilesProcessed (processFile dedup_flate initial (repetitive, 1000)) = 1"
    by simp
  have m: "sint (5 :: 64 word) < sint (10 :: 64 word)" by simp
  show ?thesis by (intro conjI) (rule s m a n e b c)+
qed

text \<open>
  The claim as stated says that no reading of free memory decides whether a file is
  estimated. The same file is skipped under the reading 5 and processed under 1000.
\<close>

theorem memory_guard_counterexample:
  "stdout (processFile dedup_flate initial (repetitive, 5)) = [TooLargeSkipping ''a.log'']
   \<and> totalFilesProcessed (processFile dedup_flate initial (repetitive, 5)) = 0
   \<and> totalFilesProcessed (processFile dedup_flate initial (repetitive, 1000)) = 1"
proof -
  have "processFile dedup_flate initial (repetitive, 5) = Printf (TooLargeSkipping ''a.log'') initial"
    by (simp add: processFile_def repetitive_def plain_file_def)
  then show ?thesis
    by (simp add: processFile_processed sample_repetitive Printf_def initial_def)
qed

section \<open>The estimator\<close>

lemma chunks_read_simps:
  "chunks_read [] = []"
  "chunks_read ((bs, err) # rest) = (if bs = [] then [] else bs # chunks_read rest)"
  by (simp_all add: chunks_read_def)

lemma chunks_read_nonempty: "c \<in> set (chunks_read rs) \<Longrightarrow> c \<noteq> []"
  by (auto simp: chunks_read_def dest: set_takeWhileD)

lemma read_loop_chunks:
  assumes "\<forall>r \<in> set rs. snd r = None \<or> snd r = Some EOF"
  shows "read_loop fl rs n w =
          (case feed fl w (chunks_read rs) of
             Inl e \<Rightarrow> Inl e
           | Inr w' \<Rightarrow> Inr (n + of_nat (length (concat (chunks_read rs))), w'))"
  using assms
proof (induction rs arbitrary: n w)
  case Nil
  then show ?case by (simp add: chunks_read_simps)
next
  case (Cons r rs)
  obtain bs err where r: "r = (bs, err)" by (cases r)
  from Cons.prems r have err: "err = None \<or> err = Some EOF" by auto
  from Cons.prems have rest: "\<forall>r \<in> set rs. snd r = None \<or> snd r = Some EOF" by simp
  show ?case
  proof (cases "bs = []")
    case True
    with err show ?thesis by (auto simp: r chunks_read_simps)
  next
    case False
    show ?thesis
    proof (cases "Write fl w bs")
      case (Inl e)
      with False err show ?thesis by (auto simp: r chunks_read_simps)
    next
      case (Inr w')
      with False err Cons.IH[OF rest, of "n + of_nat (length bs)" w'] show ?thesis
        by (auto simp: r chunks_read_simps split: sum.splits)
    qed
  qed
qed

lemma estimate_by_chunks:
  assumes "open_result f = None" "NewWriter fl = Inr w0"
    and "\<forall>r \<in> set (reads f). snd r = None \<or> snd r = Some EOF"
  shows "compressFileInMemory fl f =
          (case feed fl w0 (chunks_read (reads f)) of
             Inl e \<Rightarrow> Inl e
           | Inr w1 \<Rightarrow>
               (case Close fl w1 of
                  Inl e \<Rightarrow> Inl e
                | Inr w2 \<Rightarrow> Inr (of_nat (length (concat (chunks_read (reads f)))),
                                 of_nat (Len fl w2))))"
  using assms(1,2)
  by (simp add: compressFileInMemory_def read_loop_chunks[OF assms(3)] split: sum.splits)

lemma feed_concat:
  assumes "splits_writes fl" "cs \<noteq> []" "\<forall>c \<in> set cs. c \<noteq> []"
  shows "feed fl w cs = Write fl w (concat cs)"
  using assms(2,3)
proof (induction cs arbitrary: w)
  case Nil
  then show ?case by simp
next
  case (Cons c cs)
  show ?case
  proof (cases "cs = []")
    case True
    then show ?thesis by (simp split: sum.splits)
  next
    case False
    with Cons.prems have ne: "c \<noteq> []" "concat cs \<noteq> []" by (cases cs; simp)+
    have IH: "feed fl w' cs = Write fl w' (concat cs)" for w'
      using Cons.IH[OF False] Cons.prems by simp
    from assms(1) ne have "Write fl w (c @ concat cs) =
        (case Write fl w c of Inl e \<Rightarrow> Inl e | Inr w' \<Rightarrow> Write fl w' (concat cs))"
      by (simp add: splits_writes_def)
    then show ?thesis by (cases "Write fl w c") (simp_all add: IH)
  qed
qed

lemma concat_nonempty_chunks:
  assumes "\<forall>c \<in> set cs. c \<noteq> []" "concat cs = []"
  shows "cs = []"
  using assms by (cases cs) auto

lemma feed_same_bytes:
  assumes "splits_writes fl" "concat (chunks_read rs') = concat (chunks_read rs)"
  shows "feed fl w (chunks_read rs') = feed fl w (chunks_read rs)"
proof (cases "concat (chunks_read rs) = []")
  case True
  then have "chunks_read rs = []"
    using chunks_read_nonempty[of _ rs] by (intro concat_nonempty_chunks) auto
  moreover from True assms(2) have "chunks_read rs' = []"
    using chunks_read_nonempty[of _ rs'] by (intro concat_nonempty_chunks) auto
  ultimately show ?thesis by simp
next
  case False
  then have a: "chunks_read rs \<noteq> []" by auto
  from False assms(2) have b: "chunks_read rs' \<noteq> []" by auto
  show ?thesis
    using feed_concat[OF assms(1) a] feed_concat[OF assms(1) b] chunks_read_nonempty assms(2)
    by simp
qed

lemma sint_of_nat_int64:
  assumes "n < 2 ^ 63"
  shows "sint (of_nat n :: 64 word) = int n"
proof -
  have "int n < 2 ^ 63" using assms by (metis of_nat_less_iff of_nat_numeral of_nat_power)
  then have "- (2 ^ 63) \<le> int n" "int n < 2 ^ 63" by simp_all
  then show ?thesis
    using signed_of_nat[where ?'a = int and ?'b = 64, of n]
    by (simp add: signed_take_bit_int_eq_self)
qed

lemma splits_writes_stored: "splits_writes stored_flate"
  by (simp add: splits_writes_def stored_flate_def)

text \<open>
  C8. For a file that opens and whose reads return no error other than \<^verbatim>\<open>io.EOF\<close>, and a
  compressor that accepts the chunks read, \<^verbatim>\<open>compressFileInMemory\<close> returns the number of
  bytes read and the length of the sink after \<^verbatim>\<open>Close\<close>. With a compressor that works on
  the stream of bytes, every file that delivers the same bytes, in whatever chunks,
  gives the same pair of sizes.
\<close>

theorem estimate_returns_exact_sizes:
  assumes "open_result f = None" and "NewWriter fl = Inr w0"
    and "\<forall>r \<in> set (reads f). snd r = None \<or> snd r = Some EOF"
    and "feed fl w0 (chunks_read (reads f)) = Inr w1" and "Close fl w1 = Inr w2"
    and "length (concat (chunks_read (reads f))) < 2 ^ 63" and "Len fl w2 < 2 ^ 63"
  shows "(\<exists>originalSize compressedSize.
            compressFileInMemory fl f = Inr (originalSize, compressedSize)
          \<and> sint originalSize = int (length (concat (chunks_read (reads f))))
          \<and> sint compressedSize = int (Len fl w2))
       \<and> (splits_writes fl \<and> open_result f' = None
          \<and> (\<forall>r \<in> set (reads f'). snd r = None \<or> snd r = Some EOF)
          \<and> concat (chunks_read (reads f')) = concat (chunks_read (reads f))
          \<longrightarrow> compressFileInMemory fl f' = compressFileInMemory fl f)"
proof -
  have "compressFileInMemory fl f =
          Inr (of_nat (length (concat (chunks_read (reads f)))), of_nat (Len fl w2))"
    by (simp add: estimate_by_chunks[OF assms(1-3)] assms(4,5))
  moreover have "compressFileInMemory fl f' = compressFileInMemory fl f"
    if h: "splits_writes fl" "open_result f' = None"
      "\<forall>r \<in> set (reads f'). snd r = None \<or> snd r = Some EOF"
      "concat (chunks_read (reads f')) = concat (chunks_read (reads f))"
    by (simp only: estimate_by_chunks[OF assms(1-3)] estimate_by_chunks[OF h(2) assms(2) h(3)]
        feed_same_bytes[OF h(1) h(4)] h(4))
  ultimately show ?thesis
    using sint_of_nat_int64[OF assms(6)] sint_of_nat_int64[OF assms(7)] by auto
qed

theorem estimate_returns_exact_sizes_witness:
  "open_result one_read = None \<and> NewWriter stored_flate = Inr []
   \<and> reads one_read = [([7, 7, 8], None), ([], Some EOF)]
   \<and> feed stored_flate [] (chunks_read (reads one_read)) = Inr [7, 7, 8]
   \<and> Close stored_flate [7, 7, 8] = Inr [7, 7, 8, 1, 0, 0, 255, 255]
   \<and> length (concat (chunks_read (reads one_read))) = 3
   \<and> Len stored_flate [7, 7, 8, 1, 0, 0, 255, 255] = 8
   \<and> (\<exists>originalSize compressedSize.
         compressFileInMemory stored_flate one_read = Inr (originalSize, compressedSize)
       \<and> sint originalSize = 3 \<and> sint compressedSize = 8)
   \<and> splits_writes stored_flate \<and> open_result two_reads = None
   \<and> reads two_reads = [([7], None), ([7, 8], Some EOF)]
   \<and> concat (chunks_read (reads two_reads)) = concat (chunks_read (reads one_read))
   \<and> compressFileInMemory stored_flate two_reads = compressFileInMemory stored_flate one_read"
proof -
  have r: "reads one_read = [([7, 7, 8], None), ([], Some EOF)]"
    "reads two_reads = [([7], None), ([7, 8], Some EOF)]"
    by (simp_all add: one_read_def two_reads_def)
  have c: "chunks_read (reads one_read) = [[7, 7, 8]]" "chunks_read (reads two_reads) = [[7], [7, 8]]"
    by (simp_all add: r chunks_read_simps)
  have a: "open_result one_read = None" "NewWriter stored_flate = Inr []"
    "\<forall>r \<in> set (reads one_read). snd r = None \<or> snd r = Some EOF"
    "feed stored_flate [] (chunks_read (reads one_read)) = Inr [7, 7, 8]"
    "Close stored_flate [7, 7, 8] = Inr [7, 7, 8, 1, 0, 0, 255, 255]"
    "length (concat (chunks_read (reads one_read))) < 2 ^ 63"
    "Len stored_flate [7, 7, 8, 1, 0, 0, 255, 255] < 2 ^ 63"
    by (simp_all add: c) (simp_all add: one_read_def plain_file_def stored_flate_def)
  have b: "open_result two_reads = None"
    "\<forall>r \<in> set (reads two_reads). snd r = None \<or> snd r = Some EOF"
    "concat (chunks_read (reads two_reads)) = concat (chunks_read (reads one_read))"
    by (simp_all add: c) (simp_all add: two_reads_def plain_file_def)
  have l: "length (concat (chunks_read (reads one_read))) = 3"
    "Len stored_flate [7, 7, 8, 1, 0, 0, 255, 255] = 8"
    by (simp_all add: c stored_flate_def)
  from estimate_returns_exact_sizes[OF a, of two_reads] a(1,2,4,5) b(1,3) r l splits_writes_stored b(2)
  show ?thesis by simp
qed

section \<open>Sizes of zero\<close>



section \<open>The walk\<close>

lemma walkFn_None:
  "walkFn w e None =
     (if \<not> IsDir e \<and> IsRegular e then w\<lparr>paths := paths w @ [env_of e]\<rparr> else w, None)"
  by (simp add: walkFn_def)

lemma walkFn_Some:
  "walkFn w e (Some err) =
     (w\<lparr>printed := printed w @ [ErrorAccessingPath (path (env_of e)) err]\<rparr>, Some err)"
  by (simp add: walkFn_def)

lemma visit_append:
  "visit (xs @ ys) w =
     (case visit xs w of (w', Some err) \<Rightarrow> (w', Some err) | (w', None) \<Rightarrow> visit ys w')"
  by (induction xs arbitrary: w) (auto split: prod.splits option.splits)

lemma visit_error_is_OSError:
  "visit xs w = (w', Some err) \<Longrightarrow> \<exists>msg. err = OSError msg"
proof (induction xs arbitrary: w)
  case Nil
  then show ?case by simp
next
  case (Cons e xs)
  show ?case
  proof (cases "walk_error e")
    case None
    with Cons show ?thesis by (auto simp: walkFn_None)
  next
    case (Some a)
    then have "\<exists>msg. a = OSError msg" by (cases e) auto
    with Some Cons.prems show ?thesis by (auto simp: walkFn_Some)
  qed
qed

lemma walk_names_visit:
  assumes "\<And>x w. x \<in> set es \<Longrightarrow> walk walkFn x w = visit (preorder x) w"
  shows "walk_names walkFn es w = visit (concat (map preorder es)) w"
  using assms
proof (induction es arbitrary: w)
  case Nil
  then show ?case by simp
next
  case (Cons e es)
  have IH: "walk_names walkFn es w' = visit (concat (map preorder es)) w'" for w'
    using Cons by simp
  have e: "walk walkFn e w = visit (preorder e) w" using Cons.prems by simp
  show ?case
  proof (cases "\<exists>f msg. e = LstatError f msg")
    case True
    then obtain f msg where "e = LstatError f msg" by blast
    then show ?thesis by (simp add: walkFn_Some IH)
  next
    case False
    then have step: "walk_names walkFn (e # es) w =
        (case walk walkFn e w of
           (s', Some err) \<Rightarrow>
             if \<not> IsDir e \<or> err \<noteq> SkipDir then (s', Some err) else walk_names walkFn es s'
         | (s', None) \<Rightarrow> walk_names walkFn es s')"
      by (cases e) (simp_all del: walk.simps)
    obtain w' r where v: "visit (preorder e) w = (w', r)" by (cases "visit (preorder e) w")
    show ?thesis
    proof (cases r)
      case None
      with v e IH show ?thesis by (simp add: step visit_append del: walk_names.simps)
    next
      case (Some err)
      with v visit_error_is_OSError obtain msg where "err = OSError msg" by blast
      with Some v e IH show ?thesis by (simp add: step visit_append del: walk_names.simps)
    qed
  qed
qed

lemma walk_visit: "walk walkFn e w = visit (preorder e) w"
proof (induction e arbitrary: w)
  case (Dir f entries)
  then show ?case by (simp add: walkFn_None walk_names_visit)
qed (simp_all add: walkFn_None walkFn_Some)

lemma Walk_visit: "Walk walkFn rootDir w = visit (preorder rootDir) w"
proof (cases "visit (preorder rootDir) w")
  case (Pair w' r)
  show ?thesis
  proof (cases r)
    case None
    with Pair show ?thesis
      by (cases rootDir) (auto simp: Walk_def walk_visit walkFn_Some walkFn_None
          simp del: walk.simps split: prod.splits option.splits)
  next
    case (Some err)
    with Pair visit_error_is_OSError obtain msg where "err = OSError msg" by blast
    with Some Pair show ?thesis
      by (cases rootDir) (auto simp: Walk_def walk_visit walkFn_Some walkFn_None
          simp del: walk.simps split: prod.splits option.splits)
  qed
qed

lemma visit_no_error:
  assumes "\<forall>x \<in> set xs. walk_error x = None"
  shows "visit xs w = (w\<lparr>paths := paths w @ regular_files xs\<rparr>, None)"
  using assms by (induction xs arbitrary: w) (auto simp: walkFn_None regular_files_def)

lemma Walk_no_error:
  assumes "\<forall>x \<in> set (preorder rootDir). walk_error x = None"
  shows "Walk walkFn rootDir w = (w\<lparr>paths := paths w @ regular_files (preorder rootDir)\<rparr>, None)"
  by (simp add: Walk_visit visit_no_error[OF assms])

lemma preorder_blocked_tree:
  "preorder blocked_tree =
     [blocked_tree] @ DirError (plain_file ''data/a'' []) ''access denied'' # [File small True]"
  by (simp add: blocked_tree_def)

text \<open>
  C3 (as amended). An error met on any entry of the tree, the root or an entry below
  it, is reported and ends the walk: the regular files before that entry in the order
  of the walk have been sent, the error is returned, and no later entry, sibling or
  not, is visited.
\<close>

theorem walk_stops_at_first_error:
  assumes "preorder rootDir = before @ e # after"
    and "\<forall>x \<in> set before. walk_error x = None"
    and "walk_error e = Some err"
  shows "Walk walkFn rootDir w =
           (w\<lparr>paths := paths w @ regular_files before,
              printed := printed w @ [ErrorAccessingPath (path (env_of e)) err]\<rparr>,
            Some err)"
  by (simp add: Walk_visit assms(1) visit_append visit_no_error[OF assms(2)] assms(3) walkFn_Some)

theorem walk_stops_at_first_error_witness:
  "preorder blocked_tree =
     [blocked_tree] @ DirError (plain_file ''data/a'' []) ''access denied'' # [File small True]
   \<and> walk_error blocked_tree = None
   \<and> walk_error (DirError (plain_file ''data/a'' []) ''access denied'')
       = Some (OSError ''access denied'')
   \<and> Walk walkFn blocked_tree \<lparr>paths = [], printed = []\<rparr> =
       (\<lparr>paths = [],
         printed = [ErrorAccessingPath ''data/a'' (OSError ''access denied'')]\<rparr>,
        Some (OSError ''access denied''))"
proof -
  have a: "\<forall>x \<in> set [blocked_tree]. walk_error x = None" by (simp add: blocked_tree_def)
  have b: "walk_error (DirError (plain_file ''data/a'' []) ''access denied'')
             = Some (OSError ''access denied'')" by simp
  have c: "regular_files [blocked_tree] = []" by (simp add: regular_files_def blocked_tree_def)
  have d: "walk_error blocked_tree = None" by (simp add: blocked_tree_def)
  from walk_stops_at_first_error[OF preorder_blocked_tree a b, of "\<lparr>paths = [], printed = []\<rparr>"]
    preorder_blocked_tree b c d
  show ?thesis by (simp add: plain_file_def)
qed

text \<open>
  The claim as stated lets the walk go on to the siblings of a failing subtree. In
  \<open>blocked_tree\<close> the regular file that follows the unreadable directory is never
  sent, and the walk returns the error.
\<close>

theorem walk_skips_siblings_counterexample:
  "small \<in> set (regular_files (preorder blocked_tree))
   \<and> paths (fst (Walk walkFn blocked_tree \<lparr>paths = [], printed = []\<rparr>)) = []
   \<and> snd (Walk walkFn blocked_tree \<lparr>paths = [], printed = []\<rparr>) = Some (OSError ''access denied'')"
  by (simp add: Walk_visit blocked_tree_def regular_files_def walkFn_None walkFn_Some)

text \<open>
  For \<^verbatim>\<open>scanAndCompressFolder\<close> this means that the files after the error are never
  processed: on \<open>blocked_tree\<close> the two error lines are printed and no file is counted.
\<close>

lemma scan_blocked_tree:
  "scanAndCompressFolder dedup_flate in_order blocked_tree initial =
     initial\<lparr>stdout := [ErrorAccessingPath ''data/a'' (OSError ''access denied''),
                        ErrorScanningFolder ''data'' (OSError ''access denied'')]\<rparr>"
proof -
  have "Walk walkFn blocked_tree \<lparr>paths = [], printed = []\<rparr> =
       (\<lparr>paths = [], printed = [ErrorAccessingPath ''data/a'' (OSError ''access denied'')]\<rparr>,
        Some (OSError ''access denied''))"
    by (simp add: Walk_visit blocked_tree_def walkFn_None walkFn_Some plain_file_def)
  then show ?thesis
    by (simp add: scanAndCompressFolder_def in_order_def run_Nil initial_def)
       (simp add: blocked_tree_def plain_file_def)
qed

section \<open>main\<close>

text \<open>
  C4 (as amended). An invocation whose \<^verbatim>\<open>os.Args\<close> holds the program name and that has a
  missing or an extra argument prints the usage line, processes nothing and exits
  with code 0; an invocation with one argument exits with code 0 whatever happens to
  the files.
\<close>

theorem main_exit_codes:
  "(Args \<noteq> [] \<and> length Args \<noteq> 2 \<longrightarrow>
      main fl rt tree Args = (Printf (Usage (hd Args)) initial, 0))
   \<and> (length Args = 2 \<longrightarrow> snd (main fl rt tree Args) = 0)"
  by (cases Args) (simp_all add: main_def Let_def)

theorem main_exit_codes_witness:
  "[''ntfs_pancake.exe''] \<noteq> [] \<and> length [''ntfs_pancake.exe''] \<noteq> 2
   \<and> main dedup_flate in_order (\<lambda>p. blocked_tree) [''ntfs_pancake.exe'']
       = (Printf (Usage ''ntfs_pancake.exe'') initial, 0)
   \<and> length [''ntfs_pancake.exe'', ''data''] = 2
   \<and> snd (main dedup_flate in_order (\<lambda>p. blocked_tree) [''ntfs_pancake.exe'', ''data'']) = 0"
  using main_exit_codes[of "[''ntfs_pancake.exe'']" dedup_flate in_order "\<lambda>p. blocked_tree"]
    main_exit_codes[of "[''ntfs_pancake.exe'', ''data'']" dedup_flate in_order "\<lambda>p. blocked_tree"]
  by simp

text \<open>
  The claim as stated gives a usage error a non-zero exit code. \<^verbatim>\<open>main\<close> returns after
  printing the usage line, and the exit code is 0. An empty \<^verbatim>\<open>os.Args\<close> also has a length
  other than 2; there \<^verbatim>\<open>os.Args[0]\<close> panics before anything is printed, and the exit code
  is 2.
\<close>

theorem usage_exit_code_counterexample:
  "length [''ntfs_pancake.exe''] \<noteq> 2
   \<and> snd (main dedup_flate in_order (\<lambda>p. blocked_tree) [''ntfs_pancake.exe'']) = 0
   \<and> length ([] :: string list) \<noteq> 2
   \<and> main dedup_flate in_order (\<lambda>p. blocked_tree) [] = (initial, 2)
   \<and> stdout initial = []"
  by (simp add: main_def initial_def)

end
